theory Spec2Isabelle
  imports Complex_Main
begin

section \<open>JavaScript values\<close>

text \<open>
  The server (the second document of \<^verbatim>\<open>TransportControls.js\<close>) works on what
  \<^verbatim>\<open>JSON.parse\<close> returns. Numbers are modelled as exact rationals: the wall clock
  \<^verbatim>\<open>Date.now()\<close> yields whole milliseconds, a JSON number may carry a fraction.
  Rounding error of doubles, \<^verbatim>\<open>NaN\<close> and the infinities are outside the model.
\<close>

datatype jsval =
    JUndefined
  | JNull
  | JBool bool
  | JNum rat
  | JStr string
  | JArr "jsval list"
  | JObj "(string \<times> jsval) list"

text \<open>Truthiness, as the operator \<^verbatim>\<open>||\<close> tests it.\<close>

fun truthy :: "jsval \<Rightarrow> bool" where
  "truthy JUndefined = False"
| "truthy JNull = False"
| "truthy (JBool b) = b"
| "truthy (JNum n) = (n \<noteq> 0)"
| "truthy (JStr s) = (s \<noteq> [])"
| "truthy (JArr xs) = True"
| "truthy (JObj kvs) = True"

definition js_or :: "jsval \<Rightarrow> jsval \<Rightarrow> jsval" where
  "js_or a b = (if truthy a then a else b)"

text \<open>
  Property read \<^verbatim>\<open>obj.k\<close> on a value that is neither \<^verbatim>\<open>null\<close> nor
  \<^verbatim>\<open>undefined\<close> (on those the read throws, which the handlers below test first).
  An object is its property list, the binding in force first. The names read by the
  server (\<^verbatim>\<open>type\<close>, \<^verbatim>\<open>timestamp\<close>, \<^verbatim>\<open>channel\<close>, \<^verbatim>\<open>note\<close>, \<^verbatim>\<open>velocity\<close>,
  \<^verbatim>\<open>control\<close>, \<^verbatim>\<open>value\<close>, \<^verbatim>\<open>program\<close>, \<^verbatim>\<open>action\<close>) are no properties of
  primitives or arrays.
\<close>

fun get_prop :: "jsval \<Rightarrow> string \<Rightarrow> jsval" where
  "get_prop (JObj kvs) k = (case map_of kvs k of Some v \<Rightarrow> v | None \<Rightarrow> JUndefined)"
| "get_prop v k = JUndefined"

definition nullish :: "jsval \<Rightarrow> bool" where
  "nullish v = (v = JNull \<or> v = JUndefined)"

definition Math_round :: "rat \<Rightarrow> rat" where
  \<comment> \<open>\<^verbatim>\<open>Math.round\<close>: the nearest integer, a half rounded up\<close>
  "Math_round x = of_int \<lfloor>x + 1 / 2\<rfloor>"

section \<open>State of the server\<close>

datatype evtype = NoteOnT | NoteOffT | CcT | ProgramT

text \<open>
  A queued event is the object literal built in \<^verbatim>\<open>handlePerformancePacket\<close>; a property
  the literal does not have reads as \<^verbatim>\<open>undefined\<close>.
\<close>

record event =
  playAt :: rat
  etype :: evtype
  channel :: jsval
  note_no :: jsval
  velocity :: jsval
  control :: jsval
  cc_value :: jsval
  program :: jsval

text \<open>
  The client record of \<^verbatim>\<open>ensureClient\<close>. The socket and peer handles
  (\<^verbatim>\<open>ws\<close>, \<^verbatim>\<open>pc\<close>, \<^verbatim>\<open>dc\<close>) belong to the transport libraries and are left out.
\<close>

record client =
  cid :: nat
  latencyHistory :: "rat list"
  bufferSizeMs :: rat
  lastSeen :: "rat option"

text \<open>Calls of the four MIDI helper functions, the sink of the scheduled and immediate lanes.\<close>

datatype sink_call =
    SendNoteOn jsval jsval jsval
  | SendNoteOff jsval jsval jsval
  | SendControlChange jsval jsval jsval
  | SendProgramChange jsval jsval

text \<open>
  The module-level variables. \<^verbatim>\<open>sink\<close> is the sequence of helper calls made so far; what
  a helper does with the device (\<^verbatim>\<open>midiOutput.send\<close>) is the device driver's part.
\<close>

record server =
  nextClientId :: nat
  clients :: "nat \<rightharpoonup> client"
  playbackQueue :: "event list"
  wsImmediate :: nat
  rtcPerf :: nat
  midiConnected :: bool
  sink :: "sink_call list"

definition LATE_DROP_MS :: rat where
  "LATE_DROP_MS = 50"

definition SAFETY_MARGIN_MS :: rat where
  "SAFETY_MARGIN_MS = 15"

definition init_server :: "bool \<Rightarrow> server" where
  "init_server midi =
     \<lparr>nextClientId = 1, clients = Map.empty, playbackQueue = [],
      wsImmediate = 0, rtcPerf = 0, midiConnected = midi, sink = []\<rparr>"

section \<open>Latency estimator\<close>

text \<open>
  \<^verbatim>\<open>percentile(arr, p)\<close>. The index is \<^verbatim>\<open>Math.floor((p / 100) * (sorted.length - 1))\<close>;
  for \<open>0 \<le> p \<le> 100\<close> it lies inside the array (lemma \<open>percentile_index_in_range\<close>
  below), and the server only ever passes 95. For another \<open>p\<close> JavaScript would read
  \<^verbatim>\<open>undefined\<close>; the model says nothing about that read. The product is taken
  exactly; for the windows of at most 200 samples kept by the server the product in
  doubles has the same floor.
\<close>

definition percentile_index :: "nat \<Rightarrow> rat \<Rightarrow> int" where
  "percentile_index len p = \<lfloor>(p / 100) * (of_nat len - 1)\<rfloor>"

definition percentile :: "rat list \<Rightarrow> rat \<Rightarrow> rat" where
  "percentile arr p =
     (if arr = [] then 0
      else let sorted = sort arr;
               idx = percentile_index (length sorted) p
           in sorted ! nat idx)"

section \<open>Playback queue\<close>

text \<open>
  \<^verbatim>\<open>insertEvent\<close>: the index \<open>i\<close> walks down from the last position while the entry
  there is due strictly later than the new event; the event is spliced in at \<open>i + 1\<close>.
\<close>

function scan_back :: "event list \<Rightarrow> rat \<Rightarrow> int \<Rightarrow> int" where
  "scan_back q p i =
     (if i \<ge> 0 \<and> playAt (q ! nat i) > p then scan_back q p (i - 1) else i)"
  by pat_completeness auto
termination
  by (relation "measure (\<lambda>(q, p, i). nat (i + 1))") auto

declare scan_back.simps [simp del]

definition insertEvent :: "event \<Rightarrow> event list \<Rightarrow> event list" where
  "insertEvent evt q =
     (let i = scan_back q (playAt evt) (int (length q) - 1)
      in take (nat (i + 1)) q @ evt # drop (nat (i + 1)) q)"

section \<open>MIDI helpers and the dispatcher\<close>

definition sendNoteOn :: "jsval \<Rightarrow> jsval \<Rightarrow> jsval \<Rightarrow> server \<Rightarrow> server" where
  "sendNoteOn ch n v s = s\<lparr>sink := sink s @ [SendNoteOn ch n v]\<rparr>"

definition sendNoteOff :: "jsval \<Rightarrow> jsval \<Rightarrow> jsval \<Rightarrow> server \<Rightarrow> server" where
  "sendNoteOff ch n v s = s\<lparr>sink := sink s @ [SendNoteOff ch n v]\<rparr>"

definition sendControlChange :: "jsval \<Rightarrow> jsval \<Rightarrow> jsval \<Rightarrow> server \<Rightarrow> server" where
  "sendControlChange ch ctl v s = s\<lparr>sink := sink s @ [SendControlChange ch ctl v]\<rparr>"

definition sendProgramChange :: "jsval \<Rightarrow> jsval \<Rightarrow> server \<Rightarrow> server" where
  "sendProgramChange ch pr s = s\<lparr>sink := sink s @ [SendProgramChange ch pr]\<rparr>"

text \<open>The \<^verbatim>\<open>switch (evt.type)\<close> of the dispatcher: which helper is called, with what.\<close>

definition emit :: "event \<Rightarrow> server \<Rightarrow> server" where
  "emit evt s =
     (case etype evt of
        NoteOnT \<Rightarrow>
          sendNoteOn (js_or (channel evt) (JNum 1)) (note_no evt)
            (js_or (velocity evt) (JNum 100)) s
      | NoteOffT \<Rightarrow> sendNoteOff (js_or (channel evt) (JNum 1)) (note_no evt) (JNum 0) s
      | CcT \<Rightarrow>
          sendControlChange (js_or (channel evt) (JNum 1)) (control evt) (cc_value evt) s
      | ProgramT \<Rightarrow> sendProgramChange (js_or (channel evt) (JNum 1)) (program evt) s)"

text \<open>
  One run of the 5 ms timer at clock reading \<open>now\<close>. Each pass of the \<^verbatim>\<open>while\<close> loop
  shifts the head off the queue and then either skips it (late drop) or calls a helper.
  The loop also keeps a record of every dispatch: the clock reading, the event, and the
  server state in which the helper was entered.
\<close>

record dispatch =
  d_time :: rat
  d_evt :: event
  d_before :: server

fun dispatch_loop :: "rat \<Rightarrow> event list \<Rightarrow> server \<Rightarrow> dispatch list \<Rightarrow> server \<times> dispatch list" where
  "dispatch_loop now [] s ds = (s, ds)"
| "dispatch_loop now (evt # rest) s ds =
     (if playAt evt \<le> now then
        (let s1 = s\<lparr>playbackQueue := rest\<rparr>;
             playbackError = now - playAt evt
         in if playbackError > LATE_DROP_MS then dispatch_loop now rest s1 ds
            else dispatch_loop now rest (emit evt s1)
                   (ds @ [\<lparr>d_time = now, d_evt = evt, d_before = s1\<rparr>]))
      else (s, ds))"

definition dispatcher :: "rat \<Rightarrow> server \<Rightarrow> server \<times> dispatch list" where
  "dispatcher now s = dispatch_loop now (playbackQueue s) s []"

section \<open>Performance lane\<close>

datatype error = TypeError

text \<open>
  \<^verbatim>\<open>handlePerformancePacket(c, msg)\<close>. The argument \<open>msg\<close> is what the \<^verbatim>\<open>try\<close> block
  around \<^verbatim>\<open>JSON.parse\<close> yields: \<open>None\<close> when parsing throws, the parsed value
  otherwise. \<open>t1\<close> and \<open>t2\<close> are the two readings of \<^verbatim>\<open>Date.now()\<close>. The client
  object is passed in and handed back updated. The first component of the result is the
  exception that leaves the handler, if any: reading \<^verbatim>\<open>obj.timestamp\<close> of \<^verbatim>\<open>null\<close>
  throws. The \<^verbatim>\<open>JCMP_DEBUG\<close> branches only write to the console and are left out.
\<close>

definition mk_event :: "rat \<Rightarrow> evtype \<Rightarrow> jsval \<Rightarrow> event" where
  "mk_event t ty obj =
     \<lparr>playAt = t, etype = ty,
      channel = js_or (get_prop obj ''channel'') (JNum 1),
      note_no = (if ty = NoteOnT \<or> ty = NoteOffT then get_prop obj ''note'' else JUndefined),
      velocity =
        (if ty = NoteOnT then js_or (get_prop obj ''velocity'') (JNum 100) else JUndefined),
      control = (if ty = CcT then get_prop obj ''control'' else JUndefined),
      cc_value = (if ty = CcT then get_prop obj ''value'' else JUndefined),
      program = (if ty = ProgramT then get_prop obj ''program'' else JUndefined)\<rparr>"

definition schedule :: "jsval \<Rightarrow> rat \<Rightarrow> event list \<Rightarrow> event list" where
  \<comment> \<open>the \<^verbatim>\<open>switch (obj.type)\<close> at the end of the handler\<close>
  "schedule obj t q =
     (case get_prop obj ''type'' of
        JStr ty \<Rightarrow>
          if ty = ''noteOn'' then
            insertEvent (mk_event (t + 800) NoteOffT obj) (insertEvent (mk_event t NoteOnT obj) q)
          else if ty = ''noteOff'' then insertEvent (mk_event t NoteOffT obj) q
          else if ty = ''controlChange'' then insertEvent (mk_event t CcT obj) q
          else if ty = ''programChange'' then insertEvent (mk_event t ProgramT obj) q
          else q
      | _ \<Rightarrow> q)"

definition push_latency :: "rat list \<Rightarrow> rat \<Rightarrow> rat list" where
  \<comment> \<open>\<^verbatim>\<open>push\<close>, then \<^verbatim>\<open>splice(0, length - 200)\<close> when more than 200 are held\<close>
  "push_latency h latency =
     (let h1 = h @ [latency]
      in if length h1 > 200 then drop (length h1 - 200) h1 else h1)"

definition timestamp_of :: "jsval \<Rightarrow> rat \<Rightarrow> rat" where
  \<comment> \<open>\<^verbatim>\<open>typeof obj.timestamp === 'number' ? obj.timestamp : now\<close>\<close>
  "timestamp_of obj now = (case get_prop obj ''timestamp'' of JNum n \<Rightarrow> n | _ \<Rightarrow> now)"

definition handlePerformancePacket ::
  "client \<Rightarrow> jsval option \<Rightarrow> rat \<Rightarrow> rat \<Rightarrow> server \<Rightarrow> error option \<times> client \<times> server" where
  "handlePerformancePacket c msg t1 t2 s =
     (let c1 = c\<lparr>lastSeen := Some t1\<rparr>;
          s1 = s\<lparr>rtcPerf := rtcPerf s + 1\<rparr>
      in case msg of
           None \<Rightarrow> (None, c1, s1)
         | Some obj \<Rightarrow>
             if nullish obj then (Some TypeError, c1, s1)
             else
               let now = t2;
                   ts = timestamp_of obj now;
                   latency = max 0 (now - ts);
                   h = push_latency (latencyHistory c1) latency;
                   p95 = percentile h 95;
                   b = max 10 (min 300 (Math_round (p95 + SAFETY_MARGIN_MS)));
                   c2 = c1\<lparr>latencyHistory := h, bufferSizeMs := b\<rparr>;
                   t = ts + bufferSizeMs c2
               in (None, c2, s1\<lparr>playbackQueue := schedule obj t (playbackQueue s1)\<rparr>))"

section \<open>Immediate lane and client registry\<close>

definition handleTransportControl :: "jsval \<Rightarrow> server \<Rightarrow> server" where
  \<comment> \<open>start, stop and continue go to the device directly; only \<^verbatim>\<open>record\<close> calls a helper\<close>
  "handleTransportControl action s =
     (if \<not> midiConnected s then s
      else if action = JStr ''record'' then
        sendControlChange (JNum 1) (JNum 119) (JNum 127) s
      else s)"

text \<open>
  The \<^verbatim>\<open>ws.on('message')\<close> handler. The signaling replies (\<^verbatim>\<open>client-hello\<close>, the
  WebRTC offer and ICE candidates) and unknown types touch none of the variables modelled
  here.
\<close>

definition onMessage :: "jsval option \<Rightarrow> server \<Rightarrow> error option \<times> server" where
  "onMessage data s =
     (case data of
        None \<Rightarrow> (None, s)
      | Some message \<Rightarrow>
          if nullish message then (Some TypeError, s)
          else
            (None,
             case get_prop message ''type'' of
               JStr ty \<Rightarrow>
                 if ty = ''noteOn'' then
                   sendNoteOn (js_or (get_prop message ''channel'') (JNum 1))
                     (get_prop message ''note'')
                     (js_or (get_prop message ''velocity'') (JNum 127))
                     (s\<lparr>wsImmediate := wsImmediate s + 1\<rparr>)
                 else if ty = ''noteOff'' then
                   sendNoteOff (js_or (get_prop message ''channel'') (JNum 1))
                     (get_prop message ''note'') (JNum 0)
                     (s\<lparr>wsImmediate := wsImmediate s + 1\<rparr>)
                 else if ty = ''controlChange'' then
                   sendControlChange (js_or (get_prop message ''channel'') (JNum 1))
                     (get_prop message ''control'') (get_prop message ''value'')
                     (s\<lparr>wsImmediate := wsImmediate s + 1\<rparr>)
                 else if ty = ''programChange'' then
                   sendProgramChange (js_or (get_prop message ''channel'') (JNum 1))
                     (get_prop message ''program'')
                     (s\<lparr>wsImmediate := wsImmediate s + 1\<rparr>)
                 else if ty = ''transport'' then
                   handleTransportControl (get_prop message ''action'') s
                 else s
             | _ \<Rightarrow> s))"

definition new_client :: "nat \<Rightarrow> client" where
  "new_client i = \<lparr>cid = i, latencyHistory = [], bufferSizeMs = 40, lastSeen = None\<rparr>"

text \<open>
  \<^verbatim>\<open>ensureClient(ws)\<close>; \<open>wsid\<close> is \<^verbatim>\<open>ws._clientId\<close>, \<open>None\<close> on a socket that has
  none yet. The id then stored on the socket is the \<open>cid\<close> of the record returned.
\<close>

definition ensureClient :: "nat option \<Rightarrow> server \<Rightarrow> client \<times> server" where
  "ensureClient wsid s =
     (case (case wsid of Some i \<Rightarrow> (if i \<noteq> 0 then clients s i else None) | None \<Rightarrow> None) of
        Some c \<Rightarrow> (c, s)
      | None \<Rightarrow>
          let i = nextClientId s; c = new_client i
          in (c, s\<lparr>nextClientId := i + 1, clients := (clients s)(i \<mapsto> c)\<rparr>))"

definition onClose :: "nat \<Rightarrow> server \<Rightarrow> server" where
  "onClose i s = s\<lparr>clients := (clients s)(i := None)\<rparr>"

definition resetCounters :: "server \<Rightarrow> server" where
  \<comment> \<open>the 5 s summary timer\<close>
  "resetCounters s = s\<lparr>wsImmediate := 0, rtcPerf := 0\<rparr>"

section \<open>The event loop\<close>

text \<open>
  Everything runs on one event loop, one callback at a time. A datagram is delivered to the
  handler of the client whose data channel it came in on; closing the signaling socket
  closes the peer connection, so a client that is no longer registered receives none.
  An exception that leaves a handler ends the process (\<^verbatim>\<open>uncaughtException\<close>,
  \<^verbatim>\<open>unhandledRejection\<close>); \<open>step\<close> keeps the state reached at the throw, so the states of
  \<open>run\<close> include every state of the running server.
\<close>

datatype input =
    Connect
  | WsMessage "jsval option"
  | Perf nat "jsval option" rat rat
  | Tick rat
  | Summary
  | Close nat

fun step :: "input \<Rightarrow> server \<Rightarrow> server" where
  "step Connect s = snd (ensureClient None s)"
| "step (WsMessage data) s = snd (onMessage data s)"
| "step (Perf i msg t1 t2) s =
     (case clients s i of
        None \<Rightarrow> s
      | Some c \<Rightarrow>
          (case handlePerformancePacket c msg t1 t2 s of
             (r, c', s') \<Rightarrow> s'\<lparr>clients := (clients s')(i \<mapsto> c')\<rparr>))"
| "step (Tick now) s = fst (dispatcher now s)"
| "step Summary s = resetCounters s"
| "step (Close i) s = onClose i s"

definition run :: "input list \<Rightarrow> server \<Rightarrow> server" where
  "run ins s = fold step ins s"

text \<open>
  For statements about several runs of the dispatcher: \<open>run_log\<close> collects the dispatches
  of all the timer runs of an input sequence, in order, and \<open>clocks\<close> lists the readings
  of \<^verbatim>\<open>Date.now()\<close> taken along it (one per timer run, two per datagram).
\<close>

fun clocks :: "input list \<Rightarrow> rat list" where
  "clocks [] = []"
| "clocks (Tick now # xs) = now # clocks xs"
| "clocks (Perf i msg t1 t2 # xs) = t1 # t2 # clocks xs"
| "clocks (x # xs) = clocks xs"

fun run_log :: "input list \<Rightarrow> server \<Rightarrow> dispatch list" where
  "run_log [] s = []"
| "run_log (Tick now # xs) s = snd (dispatcher now s) @ run_log xs (step (Tick now) s)"
| "run_log (x # xs) s = run_log xs (step x s)"

text \<open>
  \<open>arrives_before e ins s\<close>: every datagram of \<open>ins\<close> that puts a copy of the event \<open>e\<close>
  into the queue is handled at a clock reading before \<open>playAt e\<close>. Queued events carry no
  mark of the packet they came from, so the packet of an event is named by the event.
\<close>

fun arrives_before :: "event \<Rightarrow> input list \<Rightarrow> server \<Rightarrow> bool" where
  "arrives_before e [] s = True"
| "arrives_before e (Perf i msg t1 t2 # xs) s =
     ((if count_list (playbackQueue s) e
            < count_list (playbackQueue (step (Perf i msg t1 t2) s)) e
       then t2 < playAt e else True) \<and>
      arrives_before e xs (step (Perf i msg t1 t2) s))"
| "arrives_before e (x # xs) s = arrives_before e xs (step x s)"

section \<open>The specification's buffer depth\<close>

text \<open>
  The specification's words for the buffer depth, to be compared with what the handler
  computes: the 95th percentile is the element at index \<open>floor(0.95 \<times> (len - 1))\<close> of the
  sorted window, and the depth is \<open>clamp(round(p95 + 15), 10, 300)\<close>.
\<close>

definition spec_clamp :: "rat \<Rightarrow> rat \<Rightarrow> rat \<Rightarrow> rat" where
  "spec_clamp x lo hi = (if x < lo then lo else if hi < x then hi else x)"

definition spec_p95 :: "rat list \<Rightarrow> rat" where
  "spec_p95 w = sort w ! nat \<lfloor>(95 / 100) * (of_nat (length w) - 1 :: rat)\<rfloor>"

definition spec_buffer_depth :: "rat list \<Rightarrow> rat" where
  "spec_buffer_depth w = spec_clamp (Math_round (spec_p95 w + 15)) 10 300"

section \<open>Example inputs\<close>

definition ex_on :: event where
  "ex_on = \<lparr>playAt = 100, etype = NoteOnT, channel = JNum 1, note_no = JNum 60,
     velocity = JNum 100, control = JUndefined, cc_value = JUndefined, program = JUndefined\<rparr>"

definition ex_off :: event where
  "ex_off = \<lparr>playAt = 100, etype = NoteOffT, channel = JNum 1, note_no = JNum 60,
     velocity = JUndefined, control = JUndefined, cc_value = JUndefined, program = JUndefined\<rparr>"

definition ex_later :: event where
  "ex_later = \<lparr>playAt = 200, etype = NoteOnT, channel = JNum 1, note_no = JNum 64,
     velocity = JNum 100, control = JUndefined, cc_value = JUndefined, program = JUndefined\<rparr>"

definition ex_noteOn_packet :: jsval where
  "ex_noteOn_packet =
     JObj [(''type'', JStr ''noteOn''), (''channel'', JNum 1), (''note'', JNum 60),
           (''velocity'', JNum 100), (''timestamp'', JNum 1000)]"

definition ex_late :: event where
  "ex_late = \<lparr>playAt = 900, etype = NoteOnT, channel = JNum 1, note_no = JNum 59,
     velocity = JNum 100, control = JUndefined, cc_value = JUndefined, program = JUndefined\<rparr>"

definition ex_due :: event where
  "ex_due = \<lparr>playAt = 990, etype = NoteOnT, channel = JNum 1, note_no = JNum 60,
     velocity = JNum 100, control = JUndefined, cc_value = JUndefined, program = JUndefined\<rparr>"

definition ex_future :: event where
  "ex_future = \<lparr>playAt = 1790, etype = NoteOffT, channel = JNum 1, note_no = JNum 60,
     velocity = JUndefined, control = JUndefined, cc_value = JUndefined, program = JUndefined\<rparr>"

definition ex_server :: server where
  "ex_server = (init_server True)\<lparr>playbackQueue := [ex_late, ex_due, ex_future]\<rparr>"

definition ex_half_packet :: jsval where
  "ex_half_packet =
     JObj [(''type'', JStr ''noteOn''), (''channel'', JNum 1), (''note'', JNum 60),
           (''velocity'', JNum 100), (''timestamp'', JNum (1999 / 2))]"

definition ex_zero_velocity :: jsval where
  "ex_zero_velocity =
     JObj [(''type'', JStr ''noteOn''), (''channel'', JNum 1), (''note'', JNum 60),
           (''velocity'', JNum 0)]"

definition ex_future_packet :: jsval where
  "ex_future_packet =
     JObj [(''type'', JStr ''noteOff''), (''channel'', JNum 1), (''note'', JNum 60),
           (''timestamp'', JNum 11000)]"

definition ex_p0 :: jsval where
  "ex_p0 =
     JObj [(''type'', JStr ''controlChange''), (''channel'', JNum 1), (''control'', JNum 7),
           (''value'', JNum 100), (''timestamp'', JNum 900)]"

definition ex_p1 :: jsval where
  "ex_p1 =
     JObj [(''type'', JStr ''noteOn''), (''channel'', JNum 1), (''note'', JNum 60),
           (''velocity'', JNum 100), (''timestamp'', JNum 1000)]"

definition ex_p2 :: jsval where
  "ex_p2 =
     JObj [(''type'', JStr ''noteOn''), (''channel'', JNum 1), (''note'', JNum 62),
           (''velocity'', JNum 100), (''timestamp'', JNum 1010)]"

definition ex_reordered :: server where
  "ex_reordered =
     run [Connect, Perf 1 (Some ex_p0) 1000 1000, Perf 1 (Some ex_p2) 1010 1010,
          Perf 1 (Some ex_p1) 1012 1012] (init_server True)"

definition show_dispatch :: "dispatch \<Rightarrow> rat \<times> evtype \<times> jsval \<times> rat" where
  "show_dispatch d = (d_time d, etype (d_evt d), note_no (d_evt d), playAt (d_evt d))"

definition ex_late_arrival :: server where
  "ex_late_arrival =
     run [Connect, Perf 1 (Some ex_p2) 1010 1010, Tick 1026, Perf 1 (Some ex_p1) 1030 1030]
       (init_server True)"

definition ex_before_late_arrival :: server where
  "ex_before_late_arrival =
     run [Connect, Perf 1 (Some ex_p2) 1010 1010] (init_server True)"

definition ex_two_ticks :: "input list" where
  "ex_two_ticks =
     [Connect, Perf 1 (Some ex_p2) 1040 1040, Perf 1 (Some ex_p1) 1041 1041,
      Tick 1046, Tick 1056]"

definition ex_on60 :: event where
  "ex_on60 = mk_event 1045 NoteOnT ex_p1"

definition ex_on62 :: event where
  "ex_on62 = mk_event 1055 NoteOnT ex_p2"

section \<open>Facts about the playback queue\<close>

lemma scan_back_step:
  "0 \<le> i \<Longrightarrow> p < playAt (q ! nat i) \<Longrightarrow> scan_back q p i = scan_back q p (i - 1)"
  by (subst scan_back.simps) simp

lemma scan_back_stop:
  "\<not> (0 \<le> i \<and> p < playAt (q ! nat i)) \<Longrightarrow> scan_back q p i = i"
  by (subst scan_back.simps) auto

lemma scan_back_bounds: "-1 \<le> i \<Longrightarrow> -1 \<le> scan_back q p i \<and> scan_back q p i \<le> i"
proof (induction q p i rule: scan_back.induct)
  case (1 q p i)
  show ?case
  proof (cases "0 \<le> i \<and> p < playAt (q ! nat i)")
    case True
    then have "scan_back q p i = scan_back q p (i - 1)"
      by (simp add: scan_back_step)
    with 1 True show ?thesis by auto
  next
    case False
    then have "scan_back q p i = i" by (rule scan_back_stop)
    with 1 show ?thesis by simp
  qed
qed

lemma scan_back_append:
  "i < int (length q) \<Longrightarrow> scan_back (q @ ys) p i = scan_back q p i"
proof (induction q p i rule: scan_back.induct)
  case (1 q p i)
  show ?case
  proof (cases "0 \<le> i")
    case neg: False
    then show ?thesis by (simp add: scan_back_stop)
  next
    case pos: True
    with 1(2) have "nat i < length q" by linarith
    then have nth: "(q @ ys) ! nat i = q ! nat i"
      by (simp add: nth_append)
    show ?thesis
    proof (cases "p < playAt (q ! nat i)")
      case True
      have "scan_back (q @ ys) p i = scan_back (q @ ys) p (i - 1)"
        using pos True nth by (simp add: scan_back_step)
      also have "\<dots> = scan_back q p (i - 1)"
        using 1(1) pos True 1(2) by simp
      also have "\<dots> = scan_back q p i"
        using pos True by (simp add: scan_back_step)
      finally show ?thesis .
    next
      case False
      then show ?thesis using nth by (simp add: scan_back_stop)
    qed
  qed
qed

lemma insertEvent_Nil: "insertEvent e [] = [e]"
  by (simp add: insertEvent_def scan_back_stop)

lemma insertEvent_snoc:
  "insertEvent e (q @ [x]) =
     (if playAt e < playAt x then insertEvent e q @ [x] else q @ [x, e])"
proof (cases "playAt e < playAt x")
  case True
  have "scan_back (q @ [x]) (playAt e) (int (length q)) =
        scan_back (q @ [x]) (playAt e) (int (length q) - 1)"
    using True by (simp add: scan_back_step)
  also have "\<dots> = scan_back q (playAt e) (int (length q) - 1)"
    by (rule scan_back_append) simp
  finally have eq: "scan_back (q @ [x]) (playAt e) (int (length q)) =
        scan_back q (playAt e) (int (length q) - 1)" .
  have b: "-1 \<le> scan_back q (playAt e) (int (length q) - 1) \<and>
           scan_back q (playAt e) (int (length q) - 1) \<le> int (length q) - 1"
    by (rule scan_back_bounds) simp
  then have "nat (scan_back q (playAt e) (int (length q) - 1) + 1) \<le> length q"
    by linarith
  then show ?thesis using True eq
    by (simp add: insertEvent_def Let_def)
next
  case False
  have "scan_back (q @ [x]) (playAt e) (int (length q)) = int (length q)"
    using False by (simp add: scan_back_stop)
  then show ?thesis using False
    by (simp add: insertEvent_def Let_def)
qed

lemma length_insertEvent: "length (insertEvent e q) = Suc (length q)"
  by (induction q rule: rev_induct) (simp_all add: insertEvent_Nil insertEvent_snoc)

lemma set_insertEvent: "set (insertEvent e q) = insert e (set q)"
  by (induction q rule: rev_induct) (auto simp add: insertEvent_Nil insertEvent_snoc)

lemma insertEvent_split:
  "\<exists>pre suf. q = pre @ suf \<and> insertEvent e q = pre @ e # suf \<and>
     (\<forall>x\<in>set suf. playAt e < playAt x) \<and> (pre = [] \<or> playAt (last pre) \<le> playAt e)"
proof (induction q rule: rev_induct)
  case Nil
  show ?case by (simp add: insertEvent_Nil)
next
  case (snoc x q)
  show ?case
  proof (cases "playAt e < playAt x")
    case True
    from snoc obtain pre suf where ps: "q = pre @ suf" "insertEvent e q = pre @ e # suf"
      "\<forall>x\<in>set suf. playAt e < playAt x" "pre = [] \<or> playAt (last pre) \<le> playAt e"
      by blast
    have ins: "insertEvent e (q @ [x]) = insertEvent e q @ [x]"
      using True by (simp add: insertEvent_snoc)
    have "q @ [x] = pre @ (suf @ [x]) \<and> insertEvent e (q @ [x]) = pre @ e # (suf @ [x]) \<and>
      (\<forall>y\<in>set (suf @ [x]). playAt e < playAt y) \<and> (pre = [] \<or> playAt (last pre) \<le> playAt e)"
      unfolding ins ps(2) using ps(1,3,4) True by simp
    then show ?thesis by blast
  next
    case False
    have "q @ [x] = (q @ [x]) @ [] \<and> insertEvent e (q @ [x]) = (q @ [x]) @ e # [] \<and>
      (\<forall>y\<in>set []. playAt e < playAt y) \<and> (q @ [x] = [] \<or> playAt (last (q @ [x])) \<le> playAt e)"
      using False by (simp add: insertEvent_snoc)
    then show ?thesis by blast
  qed
qed

lemma sorted_insertEvent:
  "sorted (map playAt q) \<Longrightarrow> sorted (map playAt (insertEvent e q))"
proof (induction q rule: rev_induct)
  case Nil
  show ?case by (simp add: insertEvent_Nil)
next
  case (snoc x q)
  from snoc.prems have sq: "sorted (map playAt q)" and le: "\<forall>y\<in>set q. playAt y \<le> playAt x"
    by (auto simp add: sorted_append)
  show ?case
  proof (cases "playAt e < playAt x")
    case True
    then show ?thesis using snoc.IH [OF sq] le
      by (auto simp add: insertEvent_snoc sorted_append set_insertEvent)
  next
    case False
    then show ?thesis using snoc.prems
      by (auto simp add: insertEvent_snoc sorted_append)
  qed
qed

lemma insertEvent_sorted_filter:
  assumes "sorted (map playAt q)"
  shows "insertEvent evt q =
    filter (\<lambda>x. playAt x \<le> playAt evt) q @ evt # filter (\<lambda>x. playAt evt < playAt x) q"
proof -
  obtain pre suf where ps: "q = pre @ suf" "insertEvent evt q = pre @ evt # suf"
      "\<forall>x\<in>set suf. playAt evt < playAt x" "pre = [] \<or> playAt (last pre) \<le> playAt evt"
    using insertEvent_split [of q evt] by blast
  have pre_le: "\<forall>x\<in>set pre. playAt x \<le> playAt evt"
  proof (cases "pre = []")
    case True
    then show ?thesis by simp
  next
    case False
    with ps(4) have l: "playAt (last pre) \<le> playAt evt" by simp
    from False obtain ys y where pre: "pre = ys @ [y]"
      by (cases pre rule: rev_cases) auto
    have "sorted (map playAt pre)" using assms ps(1) by (simp add: sorted_append)
    then have "\<forall>x\<in>set ys. playAt x \<le> playAt y"
      unfolding pre by (simp add: sorted_append)
    with l pre show ?thesis by auto
  qed
  have f1: "filter (\<lambda>x. playAt x \<le> playAt evt) q = pre"
    unfolding ps(1) using pre_le ps(3) by (auto simp add: filter_empty_conv)
  have f2: "filter (\<lambda>x. playAt evt < playAt x) q = suf"
    unfolding ps(1) using pre_le ps(3) by (auto simp add: filter_empty_conv)
  show ?thesis unfolding f1 f2 by (rule ps(2))
qed

lemma takeWhile_due_sorted:
  "sorted (map f xs) \<Longrightarrow> takeWhile (\<lambda>x. f x \<le> (t::rat)) xs = filter (\<lambda>x. f x \<le> t) xs"
proof (induction xs)
  case Nil
  show ?case by simp
next
  case (Cons x xs)
  show ?case
  proof (cases "f x \<le> t")
    case True
    then show ?thesis using Cons by simp
  next
    case False
    then have "\<forall>y\<in>set xs. \<not> f y \<le> t" using Cons.prems by fastforce
    then have "filter (\<lambda>x. f x \<le> t) xs = []" by (simp add: filter_empty_conv)
    then show ?thesis using False by simp
  qed
qed

lemma dropWhile_due_sorted:
  "sorted (map f xs) \<Longrightarrow> dropWhile (\<lambda>x. f x \<le> (t::rat)) xs = filter (\<lambda>x. \<not> f x \<le> t) xs"
proof (induction xs)
  case Nil
  show ?case by simp
next
  case (Cons x xs)
  show ?case
  proof (cases "f x \<le> t")
    case True
    then show ?thesis using Cons by simp
  next
    case False
    then have "\<forall>y\<in>set xs. \<not> f y \<le> t" using Cons.prems by fastforce
    then have "filter (\<lambda>x. \<not> f x \<le> t) xs = xs" by (simp add: filter_id_conv)
    then show ?thesis using False by simp
  qed
qed

lemma sorted_dropWhile: "sorted (map f xs) \<Longrightarrow> sorted (map f (dropWhile P xs))"
  by (induction xs) auto

section \<open>Facts about the dispatcher loop\<close>

lemma playbackQueue_emit: "playbackQueue (emit e s) = playbackQueue s"
  by (simp add: emit_def sendNoteOn_def sendNoteOff_def sendControlChange_def
      sendProgramChange_def split: evtype.split)

lemma clients_emit: "clients (emit e s) = clients s"
  by (simp add: emit_def sendNoteOn_def sendNoteOff_def sendControlChange_def
      sendProgramChange_def split: evtype.split)

lemma sink_emit_cong: "sink s = sink s' \<Longrightarrow> sink (emit e s) = sink (emit e s')"
  by (simp add: emit_def sendNoteOn_def sendNoteOff_def sendControlChange_def
      sendProgramChange_def split: evtype.split)

lemma sink_fold_emit_cong:
  "sink s = sink s' \<Longrightarrow> sink (fold emit es s) = sink (fold emit es s')"
proof (induction es arbitrary: s s')
  case Nil
  then show ?case by simp
next
  case (Cons e es)
  have "sink (emit e s) = sink (emit e s')"
    using Cons.prems by (rule sink_emit_cong)
  then have "sink (fold emit es (emit e s)) = sink (fold emit es (emit e s'))"
    by (rule Cons.IH)
  then show ?case by simp
qed

lemma dispatch_loop_queue:
  "playbackQueue s = q \<Longrightarrow>
   playbackQueue (fst (dispatch_loop now q s ds)) = dropWhile (\<lambda>e. playAt e \<le> now) q"
proof (induction q arbitrary: s ds)
  case Nil
  then show ?case by simp
next
  case (Cons e q)
  show ?case
  proof (cases "playAt e \<le> now")
    case True
    then show ?thesis
      using Cons.IH [of "s\<lparr>playbackQueue := q\<rparr>" ds]
        Cons.IH [of "emit e (s\<lparr>playbackQueue := q\<rparr>)"
                    "ds @ [\<lparr>d_time = now, d_evt = e, d_before = s\<lparr>playbackQueue := q\<rparr>\<rparr>]"]
      by (simp add: Let_def playbackQueue_emit)
  next
    case False
    then show ?thesis using Cons.prems by simp
  qed
qed

lemma dispatch_loop_clients:
  "clients (fst (dispatch_loop now q s ds)) = clients s"
proof (induction q arbitrary: s ds)
  case Nil
  then show ?case by simp
next
  case (Cons e q)
  show ?case
    using Cons [of "s\<lparr>playbackQueue := q\<rparr>" ds]
      Cons [of "emit e (s\<lparr>playbackQueue := q\<rparr>)"
                    "ds @ [\<lparr>d_time = now, d_evt = e, d_before = s\<lparr>playbackQueue := q\<rparr>\<rparr>]"]
    by (simp add: Let_def clients_emit)
qed

lemma dispatch_loop_evts:
  "map d_evt (snd (dispatch_loop now q s ds)) =
     map d_evt ds @
     filter (\<lambda>e. now - playAt e \<le> LATE_DROP_MS) (takeWhile (\<lambda>e. playAt e \<le> now) q)"
proof (induction q arbitrary: s ds)
  case Nil
  show ?case by simp
next
  case (Cons e q)
  show ?case
    using Cons [of "s\<lparr>playbackQueue := q\<rparr>" ds]
      Cons [of "emit e (s\<lparr>playbackQueue := q\<rparr>)"
               "ds @ [\<lparr>d_time = now, d_evt = e, d_before = s\<lparr>playbackQueue := q\<rparr>\<rparr>]"]
    by (simp add: Let_def not_le)
qed

lemma dispatch_loop_sink:
  "sink (fst (dispatch_loop now q s ds)) =
     sink (fold emit
       (filter (\<lambda>e. now - playAt e \<le> LATE_DROP_MS) (takeWhile (\<lambda>e. playAt e \<le> now) q)) s)"
proof (induction q arbitrary: s ds)
  case Nil
  show ?case by simp
next
  case (Cons e q)
  let ?s1 = "s\<lparr>playbackQueue := q\<rparr>"
  let ?es = "filter (\<lambda>e. now - playAt e \<le> LATE_DROP_MS) (takeWhile (\<lambda>e. playAt e \<le> now) q)"
  have a: "sink (fold emit ?es ?s1) = sink (fold emit ?es s)"
    by (rule sink_fold_emit_cong) simp
  have b: "sink (fold emit ?es (emit e ?s1)) = sink (fold emit ?es (emit e s))"
    by (rule sink_fold_emit_cong, rule sink_emit_cong) simp
  show ?case
    using Cons [of ?s1 ds]
      Cons [of "emit e ?s1" "ds @ [\<lparr>d_time = now, d_evt = e, d_before = ?s1\<rparr>]"] a b
    by (simp add: Let_def not_le)
qed

lemma emit_queue_update:
  "emit e (s\<lparr>playbackQueue := r\<rparr>) = (emit e s)\<lparr>playbackQueue := r\<rparr>"
  by (simp add: emit_def sendNoteOn_def sendNoteOff_def sendControlChange_def
      sendProgramChange_def split: evtype.split)

lemma fold_emit_queue_update:
  "fold emit es (s\<lparr>playbackQueue := r\<rparr>) = (fold emit es s)\<lparr>playbackQueue := r\<rparr>"
  by (induction es arbitrary: s) (simp_all add: emit_queue_update)

lemma dispatch_loop_state:
  "playbackQueue s = q \<Longrightarrow>
   fst (dispatch_loop now q s ds) =
     (fold emit
        (filter (\<lambda>e. now - playAt e \<le> LATE_DROP_MS) (takeWhile (\<lambda>e. playAt e \<le> now) q)) s)
     \<lparr>playbackQueue := dropWhile (\<lambda>e. playAt e \<le> now) q\<rparr>"
proof (induction q arbitrary: s ds)
  case Nil
  then show ?case by simp
next
  case (Cons e q)
  let ?s1 = "s\<lparr>playbackQueue := q\<rparr>"
  show ?case
  proof (cases "playAt e \<le> now")
    case False
    then show ?thesis using Cons.prems by simp
  next
    case True
    show ?thesis
      using True Cons.IH [of ?s1 ds]
        Cons.IH [of "emit e ?s1" "ds @ [\<lparr>d_time = now, d_evt = e, d_before = ?s1\<rparr>]"]
      by (simp add: Let_def not_le playbackQueue_emit fold_emit_queue_update emit_queue_update)
  qed
qed

lemma dispatch_loop_before:
  "d \<in> set (snd (dispatch_loop now q s ds)) \<Longrightarrow>
     d \<in> set ds \<or>
     (d_time d = now \<and> playAt (d_evt d) \<le> now \<and> now - playAt (d_evt d) \<le> LATE_DROP_MS \<and>
      (\<exists>pre. q = pre @ d_evt d # playbackQueue (d_before d)))"
proof (induction q arbitrary: s ds)
  case Nil
  then show ?case by simp
next
  case (Cons e q)
  let ?s1 = "s\<lparr>playbackQueue := q\<rparr>"
  let ?d = "\<lparr>d_time = now, d_evt = e, d_before = ?s1\<rparr>"
  show ?case
  proof (cases "playAt e \<le> now")
    case False
    with Cons.prems show ?thesis by simp
  next
    case due: True
    show ?thesis
    proof (cases "now - playAt e > LATE_DROP_MS")
      case True
      with due Cons.prems have "d \<in> set (snd (dispatch_loop now q ?s1 ds))"
        by (simp add: Let_def)
      from Cons.IH [OF this] show ?thesis
        by (auto intro: exI [of _ "e # pre" for pre])
    next
      case False
      with due Cons.prems have "d \<in> set (snd (dispatch_loop now q (emit e ?s1) (ds @ [?d])))"
        by (simp add: Let_def)
      from Cons.IH [OF this] consider "d \<in> set ds" | "d = ?d"
        | "d_time d = now \<and> playAt (d_evt d) \<le> now \<and> now - playAt (d_evt d) \<le> LATE_DROP_MS \<and>
           (\<exists>pre. q = pre @ d_evt d # playbackQueue (d_before d))"
        by auto
      then show ?thesis
      proof cases
        case 1
        then show ?thesis by simp
      next
        case 2
        have "e # q = [] @ d_evt ?d # playbackQueue (d_before ?d)" by simp
        then have "\<exists>pre. e # q = pre @ d_evt ?d # playbackQueue (d_before ?d)" by blast
        with 2 due False show ?thesis by (simp add: not_less)
      next
        case 3
        then obtain pre where "q = pre @ d_evt d # playbackQueue (d_before d)" by blast
        then have "e # q = (e # pre) @ d_evt d # playbackQueue (d_before d)" by simp
        then have "\<exists>pre. e # q = pre @ d_evt d # playbackQueue (d_before d)" by blast
        with 3 show ?thesis by simp
      qed
    qed
  qed
qed

section \<open>Facts about the packet handlers\<close>

lemma handle_Some:
  assumes "\<not> nullish obj"
  shows "handlePerformancePacket c (Some obj) t1 t2 s =
    (let h = push_latency (latencyHistory c) (max 0 (t2 - timestamp_of obj t2));
         b = max 10 (min 300 (Math_round (percentile h 95 + 15)))
     in (None, c\<lparr>lastSeen := Some t1, latencyHistory := h, bufferSizeMs := b\<rparr>,
         s\<lparr>rtcPerf := rtcPerf s + 1,
           playbackQueue := schedule obj (timestamp_of obj t2 + b) (playbackQueue s)\<rparr>))"
  using assms by (simp add: handlePerformancePacket_def Let_def SAFETY_MARGIN_MS_def)

lemma handle_None:
  "handlePerformancePacket c None t1 t2 s =
     (None, c\<lparr>lastSeen := Some t1\<rparr>, s\<lparr>rtcPerf := rtcPerf s + 1\<rparr>)"
  by (simp add: handlePerformancePacket_def Let_def)

lemma handle_nullish:
  "nullish obj \<Longrightarrow> handlePerformancePacket c (Some obj) t1 t2 s =
     (Some TypeError, c\<lparr>lastSeen := Some t1\<rparr>, s\<lparr>rtcPerf := rtcPerf s + 1\<rparr>)"
  by (simp add: handlePerformancePacket_def Let_def)

lemma noteOn_not_nullish: "get_prop obj ''type'' = JStr ty \<Longrightarrow> \<not> nullish obj"
  by (auto simp add: nullish_def)

lemma push_latency_last: "push_latency h x \<noteq> [] \<and> last (push_latency h x) = x"
  by (simp add: push_latency_def Let_def)

lemma push_latency_Nil: "push_latency [] x = [x]"
  by (simp add: push_latency_def Let_def)

lemma floor_numeral_div:
  "\<lfloor>numeral a / numeral b :: rat\<rfloor> = (numeral a div numeral b :: int)"
  using floor_divide_of_int_eq [of "numeral a" "numeral b", where ?'a = rat] by simp

lemma percentile_index_in_range:
  assumes "arr \<noteq> []" "0 \<le> p" "p \<le> 100"
  shows "0 \<le> percentile_index (length arr) p \<and>
         nat (percentile_index (length arr) p) < length arr"
proof -
  define n where "n = (of_nat (length arr) - 1 :: rat)"
  define x where "x = (p / 100) * n"
  from assms(1) have n: "0 \<le> n" unfolding n_def by (cases arr) simp_all
  have lo: "0 \<le> x" unfolding x_def using assms(2) n by simp
  have "p / 100 \<le> 1" using assms(3) by simp
  then have "(p / 100) * n \<le> 1 * n"
    using n by (rule mult_right_mono)
  then have hi: "x \<le> of_int (int (length arr) - 1)"
    unfolding x_def n_def by simp
  have "\<lfloor>x\<rfloor> \<le> \<lfloor>of_int (int (length arr) - 1) :: rat\<rfloor>"
    using hi by (rule floor_mono)
  then have up: "\<lfloor>x\<rfloor> \<le> int (length arr) - 1"
    by (simp only: floor_of_int)
  have low: "0 \<le> \<lfloor>x\<rfloor>" using lo by simp
  have "percentile_index (length arr) p = \<lfloor>x\<rfloor>"
    unfolding percentile_index_def x_def n_def ..
  moreover from up low have "nat \<lfloor>x\<rfloor> < length arr" by linarith
  ultimately show ?thesis using low by simp
qed

lemma percentile_95_spec: "w \<noteq> [] \<Longrightarrow> percentile w 95 = spec_p95 w"
  by (simp add: percentile_def percentile_index_def spec_p95_def Let_def)

lemma clamp_spec: "max 10 (min 300 x) = spec_clamp x 10 300"
  by (simp add: spec_clamp_def max_def min_def)

lemma Math_round_int: "x \<in> \<int> \<Longrightarrow> Math_round (x + 15) = x + 15"
proof -
  assume "x \<in> \<int>"
  then obtain z where z: "x = of_int z" by (auto elim: Ints_cases)
  have "\<lfloor>x + 15 + 1 / 2\<rfloor> = z + 15"
    unfolding z by (rule floor_unique) simp_all
  then show ?thesis by (simp add: Math_round_def z)
qed

lemma spec_p95_single: "spec_p95 [x] = x"
  by (simp add: spec_p95_def)

lemma handle_buffer:
  assumes "\<not> nullish obj"
  shows "latencyHistory (fst (snd (handlePerformancePacket c (Some obj) t1 t2 s))) \<noteq> [] \<and>
    bufferSizeMs (fst (snd (handlePerformancePacket c (Some obj) t1 t2 s))) =
      spec_buffer_depth (latencyHistory (fst (snd (handlePerformancePacket c (Some obj) t1 t2 s))))"
  using push_latency_last [of "latencyHistory c" "max 0 (t2 - timestamp_of obj t2)"]
  by (simp add: handle_Some [OF assms] Let_def spec_buffer_depth_def clamp_spec
      percentile_95_spec)

lemma handle_buffer_range:
  "10 \<le> bufferSizeMs c \<and> bufferSizeMs c \<le> 300 \<Longrightarrow>
   10 \<le> bufferSizeMs (fst (snd (handlePerformancePacket c msg t1 t2 s))) \<and>
   bufferSizeMs (fst (snd (handlePerformancePacket c msg t1 t2 s))) \<le> 300"
proof (cases msg)
  case None
  assume "10 \<le> bufferSizeMs c \<and> bufferSizeMs c \<le> 300"
  then show ?thesis using None by (simp add: handle_None)
next
  case (Some obj)
  assume a: "10 \<le> bufferSizeMs c \<and> bufferSizeMs c \<le> 300"
  show ?thesis
  proof (cases "nullish obj")
    case True
    then show ?thesis using a Some by (simp add: handle_nullish)
  next
    case False
    then show ?thesis using Some by (simp add: handle_Some Let_def)
  qed
qed

lemma playAt_mk_event: "playAt (mk_event t ty obj) = t"
  by (simp add: mk_event_def)

lemma length_schedule: "length q \<le> length (schedule obj t q)"
  by (simp add: schedule_def length_insertEvent split: jsval.split)

lemma set_schedule_mono: "set q \<subseteq> set (schedule obj t q)"
  by (auto simp add: schedule_def set_insertEvent split: jsval.split)

lemma schedule_noteOn:
  "get_prop obj ''type'' = JStr ''noteOn'' \<Longrightarrow>
   schedule obj t q =
     insertEvent (mk_event (t + 800) NoteOffT obj) (insertEvent (mk_event t NoteOnT obj) q)"
  by (simp add: schedule_def)

lemma handle_queue:
  "playbackQueue (snd (snd (handlePerformancePacket c msg t1 t2 s))) = playbackQueue s \<or>
   (\<exists>obj t. playbackQueue (snd (snd (handlePerformancePacket c msg t1 t2 s))) =
      schedule obj t (playbackQueue s))"
  by (auto simp add: handlePerformancePacket_def Let_def split: option.split)

lemma handle_clients:
  "clients (snd (snd (handlePerformancePacket c msg t1 t2 s))) = clients s"
  by (simp add: handlePerformancePacket_def Let_def split: option.split)

lemma handle_keeps_queued:
  "e \<in> set (playbackQueue s) \<Longrightarrow>
   e \<in> set (playbackQueue (snd (snd (handlePerformancePacket c msg t1 t2 s))))"
  using handle_queue [of c msg t1 t2 s] set_schedule_mono [of "playbackQueue s"] by fastforce

lemma playbackQueue_onMessage: "playbackQueue (snd (onMessage data s)) = playbackQueue s"
  by (simp add: onMessage_def sendNoteOn_def sendNoteOff_def sendControlChange_def
      sendProgramChange_def handleTransportControl_def split: option.split jsval.split)

lemma clients_onMessage: "clients (snd (onMessage data s)) = clients s"
  by (simp add: onMessage_def sendNoteOn_def sendNoteOff_def sendControlChange_def
      sendProgramChange_def handleTransportControl_def split: option.split jsval.split)

lemma onMessage_noteOn:
  assumes "get_prop message ''type'' = JStr ''noteOn''"
  shows "onMessage (Some message) s =
    (None, sendNoteOn (js_or (get_prop message ''channel'') (JNum 1))
             (get_prop message ''note'')
             (js_or (get_prop message ''velocity'') (JNum 127))
             (s\<lparr>wsImmediate := wsImmediate s + 1\<rparr>))"
  using assms noteOn_not_nullish [OF assms] by (simp add: onMessage_def)

lemma ex_noteOn_not_nullish: "\<not> nullish ex_noteOn_packet"
  by (simp add: nullish_def ex_noteOn_packet_def)

lemma ex_future_not_nullish: "\<not> nullish ex_future_packet"
  by (simp add: nullish_def ex_future_packet_def)

section \<open>Invariants of the event loop\<close>

lemma sorted_schedule:
  "sorted (map playAt q) \<Longrightarrow> sorted (map playAt (schedule obj t q))"
  by (simp add: schedule_def sorted_insertEvent split: jsval.split)

lemma sorted_step:
  assumes "sorted (map playAt (playbackQueue s))"
  shows "sorted (map playAt (playbackQueue (step i s)))"
proof (cases i)
  case Connect
  then show ?thesis using assms by (simp add: ensureClient_def Let_def)
next
  case (WsMessage data)
  then show ?thesis using assms by (simp add: playbackQueue_onMessage)
next
  case (Perf k msg t1 t2)
  show ?thesis
  proof (cases "clients s k")
    case None
    then show ?thesis using assms Perf by simp
  next
    case (Some c)
    obtain r c' s' where h: "handlePerformancePacket c msg t1 t2 s = (r, c', s')"
      by (cases "handlePerformancePacket c msg t1 t2 s") auto
    have "sorted (map playAt (playbackQueue s'))"
      using handle_queue [of c msg t1 t2 s] h assms by (auto simp add: sorted_schedule)
    then show ?thesis using Perf Some h by simp
  qed
next
  case (Tick now)
  then show ?thesis using assms
    by (simp add: dispatcher_def dispatch_loop_queue sorted_dropWhile)
next
  case Summary
  then show ?thesis using assms by (simp add: resetCounters_def)
next
  case (Close k)
  then show ?thesis using assms by (simp add: onClose_def)
qed

lemma sorted_run:
  "sorted (map playAt (playbackQueue s)) \<Longrightarrow> sorted (map playAt (playbackQueue (run ins s)))"
  unfolding run_def by (induction ins arbitrary: s) (simp_all add: sorted_step)

lemma sorted_init_run: "sorted (map playAt (playbackQueue (run ins (init_server midi))))"
  by (rule sorted_run) (simp add: init_server_def)

lemma buffer_range_step:
  assumes "\<forall>i c. clients s i = Some c \<longrightarrow> 10 \<le> bufferSizeMs c \<and> bufferSizeMs c \<le> 300"
  shows "\<forall>i c. clients (step x s) i = Some c \<longrightarrow> 10 \<le> bufferSizeMs c \<and> bufferSizeMs c \<le> 300"
proof (cases x)
  case Connect
  then show ?thesis using assms
    by (auto simp add: ensureClient_def Let_def new_client_def)
next
  case (WsMessage data)
  then show ?thesis using assms by (simp add: clients_onMessage)
next
  case (Perf k msg t1 t2)
  show ?thesis
  proof (cases "clients s k")
    case None
    then show ?thesis using assms Perf by simp
  next
    case (Some c)
    obtain r c' s' where h: "handlePerformancePacket c msg t1 t2 s = (r, c', s')"
      by (cases "handlePerformancePacket c msg t1 t2 s") auto
    have cl: "clients s' = clients s" using handle_clients [of c msg t1 t2 s] h by simp
    have "10 \<le> bufferSizeMs c \<and> bufferSizeMs c \<le> 300" using assms Some by blast
    from handle_buffer_range [OF this, of msg t1 t2 s]
    have c': "10 \<le> bufferSizeMs c' \<and> bufferSizeMs c' \<le> 300" using h by simp
    show ?thesis using Perf Some h cl c' assms by auto
  qed
next
  case (Tick now)
  then show ?thesis using assms by (simp add: dispatcher_def dispatch_loop_clients)
next
  case Summary
  then show ?thesis using assms by (simp add: resetCounters_def)
next
  case (Close k)
  then show ?thesis using assms by (simp add: onClose_def)
qed

lemma buffer_range_run:
  "\<forall>i c. clients s i = Some c \<longrightarrow> 10 \<le> bufferSizeMs c \<and> bufferSizeMs c \<le> 300 \<Longrightarrow>
   \<forall>i c. clients (run ins s) i = Some c \<longrightarrow> 10 \<le> bufferSizeMs c \<and> bufferSizeMs c \<le> 300"
  unfolding run_def
proof (induction ins arbitrary: s)
  case Nil
  then show ?case by simp
next
  case (Cons x ins)
  have "\<forall>i c. clients (step x s) i = Some c \<longrightarrow> 10 \<le> bufferSizeMs c \<and> bufferSizeMs c \<le> 300"
    using Cons.prems by (rule buffer_range_step)
  then have "\<forall>i c. clients (fold step ins (step x s)) i = Some c \<longrightarrow>
      10 \<le> bufferSizeMs c \<and> bufferSizeMs c \<le> 300"
    by (rule Cons.IH)
  then show ?case by simp
qed

lemma step_noteOn_grows:
  assumes "clients s i = Some c" and "get_prop obj ''type'' = JStr ''noteOn''"
  shows "length (playbackQueue (step (Perf i (Some obj) t1 t2) s)) =
           length (playbackQueue s) + 2 \<and>
         clients (step (Perf i (Some obj) t1 t2) s) i \<noteq> None"
proof -
  have nn: "\<not> nullish obj" using assms(2) by (auto simp add: nullish_def)
  show ?thesis using assms(1) nn
    by (simp add: handlePerformancePacket_def Let_def schedule_noteOn [OF assms(2)]
        length_insertEvent)
qed

lemma run_noteOn_grows:
  assumes "get_prop obj ''type'' = JStr ''noteOn''"
  shows "clients s i \<noteq> None \<Longrightarrow>
    length (playbackQueue (run (replicate n (Perf i (Some obj) t1 t2)) s)) =
      length (playbackQueue s) + 2 * n"
proof (induction n arbitrary: s)
  case 0
  show ?case by (simp add: run_def)
next
  case (Suc n)
  from Suc.prems obtain c where c: "clients s i = Some c" by auto
  note g = step_noteOn_grows [OF c assms, of t1 t2]
  have "length (playbackQueue (run (replicate n (Perf i (Some obj) t1 t2))
           (step (Perf i (Some obj) t1 t2) s))) =
        length (playbackQueue (step (Perf i (Some obj) t1 t2) s)) + 2 * n"
    using g by (intro Suc.IH) simp
  then show ?case using g by (simp add: run_def)
qed

section \<open>Dispatches across timer runs\<close>

lemma dispatcher_member:
  assumes "d \<in> set (snd (dispatcher now s))"
  shows "d_time d = now \<and> playAt (d_evt d) \<le> now \<and> d_evt d \<in> set (playbackQueue s)"
proof -
  from assms have "d \<in> set (snd (dispatch_loop now (playbackQueue s) s []))"
    by (simp add: dispatcher_def)
  from dispatch_loop_before [OF this]
  obtain pre where "d_time d = now" "playAt (d_evt d) \<le> now"
    "playbackQueue s = pre @ d_evt d # playbackQueue (d_before d)"
    by auto
  then show ?thesis by (metis in_set_conv_decomp)
qed

lemma run_log_times: "d \<in> set (run_log ins s) \<Longrightarrow> d_time d \<in> set (clocks ins)"
proof (induction ins arbitrary: s)
  case Nil
  then show ?case by simp
next
  case (Cons x xs)
  then show ?case by (cases x) (auto dest: dispatcher_member)
qed

lemma tick_leaves_later:
  assumes "sorted (map playAt (playbackQueue s))"
    and "e \<in> set (playbackQueue (step (Tick now) s))"
  shows "now < playAt e"
  using assms by (simp add: dispatcher_def dispatch_loop_queue dropWhile_due_sorted)

lemma step_not_queued:
  assumes "e \<notin> set (playbackQueue s)"
    and "\<not> count_list (playbackQueue s) e < count_list (playbackQueue (step x s)) e"
  shows "e \<notin> set (playbackQueue (step x s))"
proof -
  from assms(1) have "count_list (playbackQueue s) e = 0" by (rule count_notin)
  with assms(2) have "count_list (playbackQueue (step x s)) e = 0" by simp
  then show ?thesis by (simp add: count_list_0_iff)
qed

lemma step_other_queue:
  "(\<forall>i msg t1 t2. x \<noteq> Perf i msg t1 t2) \<Longrightarrow>
   set (playbackQueue (step x s)) \<subseteq> set (playbackQueue s)"
proof (cases x)
  case (Tick now)
  then show ?thesis
    by (auto simp add: dispatcher_def dispatch_loop_queue dest: set_dropWhileD)
qed (simp_all add: ensureClient_def Let_def playbackQueue_onMessage resetCounters_def
      onClose_def)

lemma never_dispatched:
  assumes "e \<notin> set (playbackQueue s)"
    and "arrives_before e ins s"
    and "\<forall>c\<in>set (clocks ins). playAt e \<le> c"
  shows "\<forall>d\<in>set (run_log ins s). d_evt d \<noteq> e"
  using assms
proof (induction ins arbitrary: s)
  case Nil
  then show ?case by simp
next
  case (Cons x xs)
  have later: "\<forall>c\<in>set (clocks xs). playAt e \<le> c"
    using Cons.prems(3) by (cases x) auto
  have ab: "arrives_before e xs (step x s)"
    using Cons.prems(2) by (cases x) auto
  have nq: "e \<notin> set (playbackQueue (step x s))"
  proof (cases "\<exists>i msg t1 t2. x = Perf i msg t1 t2")
    case True
    then obtain i msg t1 t2 where x: "x = Perf i msg t1 t2" by blast
    have "playAt e \<le> t2" using Cons.prems(3) x by simp
    then have "\<not> count_list (playbackQueue s) e < count_list (playbackQueue (step x s)) e"
      using Cons.prems(2) unfolding x by (auto split: if_splits)
    with Cons.prems(1) show ?thesis by (rule step_not_queued)
  next
    case False
    then have "set (playbackQueue (step x s)) \<subseteq> set (playbackQueue s)"
      by (intro step_other_queue) blast
    with Cons.prems(1) show ?thesis by blast
  qed
  have rest: "\<forall>d\<in>set (run_log xs (step x s)). d_evt d \<noteq> e"
    using nq ab later by (rule Cons.IH)
  show ?case
  proof (cases x)
    case (Tick now)
    have "\<forall>d\<in>set (snd (dispatcher now s)). d_evt d \<noteq> e"
      using Cons.prems(1) by (auto dest: dispatcher_member)
    with rest Tick show ?thesis by auto
  qed (use rest in simp_all)
qed

lemma order_across_runs:
  assumes "sorted (map playAt (playbackQueue s))"
    and "sorted (clocks ins)"
    and "arrives_before e1 ins s"
    and "d1 \<in> set (run_log ins s)" and "d_evt d1 = e1"
    and "d2 \<in> set (run_log ins s)"
    and "playAt e1 \<le> playAt (d_evt d2)"
  shows "d_time d1 \<le> d_time d2"
  using assms
proof (induction ins arbitrary: s)
  case Nil
  then show ?case by simp
next
  case (Cons x xs)
  have srt': "sorted (map playAt (playbackQueue (step x s)))"
    using Cons.prems(1) by (rule sorted_step)
  have clk': "sorted (clocks xs)"
    using Cons.prems(2) by (cases x) auto
  have ab': "arrives_before e1 xs (step x s)"
    using Cons.prems(3) by (cases x) auto
  note IH = Cons.IH [OF srt' clk' ab' _ Cons.prems(5) _ Cons.prems(7)]
  show ?case
  proof (cases "\<exists>now. x = Tick now")
    case False
    then have "run_log (x # xs) s = run_log xs (step x s)" by (cases x) auto
    with Cons.prems(4,6) IH show ?thesis by simp
  next
    case True
    then obtain now where x: "x = Tick now" by blast
    have bound: "\<forall>c\<in>set (clocks xs). now \<le> c"
      using Cons.prems(2) unfolding x by simp
    from Cons.prems(4) consider (h1) "d1 \<in> set (snd (dispatcher now s))"
      | (t1) "d1 \<in> set (run_log xs (step x s))" unfolding x by auto
    then show ?thesis
    proof cases
      case h1
      then have t1: "d_time d1 = now" by (auto dest: dispatcher_member)
      from Cons.prems(6) consider (h2) "d2 \<in> set (snd (dispatcher now s))"
        | (t2) "d2 \<in> set (run_log xs (step x s))" unfolding x by auto
      then show ?thesis
      proof cases
        case h2
        then have "d_time d2 = now" by (auto dest: dispatcher_member)
        with t1 show ?thesis by simp
      next
        case t2
        then have "d_time d2 \<in> set (clocks xs)" by (rule run_log_times)
        with bound t1 show ?thesis by simp
      qed
    next
      case t1
      from Cons.prems(6) consider (h2) "d2 \<in> set (snd (dispatcher now s))"
        | (t2) "d2 \<in> set (run_log xs (step x s))" unfolding x by auto
      then show ?thesis
      proof cases
        case t2
        with t1 IH show ?thesis by simp
      next
        case h2
        then have "playAt (d_evt d2) \<le> now" by (auto dest: dispatcher_member)
        with Cons.prems(7) have due: "playAt e1 \<le> now" by simp
        have "e1 \<notin> set (playbackQueue (step x s))"
          using tick_leaves_later [OF Cons.prems(1), of e1 now] due unfolding x by auto
        moreover have "\<forall>c\<in>set (clocks xs). playAt e1 \<le> c"
          using bound due by auto
        ultimately have "\<forall>d\<in>set (run_log xs (step x s)). d_evt d \<noteq> e1"
          using ab' by (intro never_dispatched)
        with t1 Cons.prems(5) show ?thesis by blast
      qed
    qed
  qed
qed

section \<open>The dispatcher\<close>

text \<open>
  Claim C1. One run of the dispatcher at clock reading \<open>now\<close> calls a MIDI helper for
  exactly the events of the due prefix of the queue that are at most 50 ms late, in queue
  order: every dispatch happens at a time in \<open>[playAt, playAt + 50]\<close>, and a due event
  that is more than 50 ms late gets no helper call. The whole due prefix leaves the
  queue, and when a helper is entered for an event the queue is already the part behind
  that event. Apart from the queue and the helper calls the run changes nothing.
\<close>

theorem dispatcher_window_and_late_drop:
  "(\<forall>d\<in>set (snd (dispatcher now s)).
      d_time d = now \<and>
      playAt (d_evt d) \<le> d_time d \<and> d_time d \<le> playAt (d_evt d) + 50 \<and>
      (\<exists>pre. playbackQueue s = pre @ d_evt d # playbackQueue (d_before d))) \<and>
   map d_evt (snd (dispatcher now s)) =
     filter (\<lambda>e. now - playAt e \<le> 50) (takeWhile (\<lambda>e. playAt e \<le> now) (playbackQueue s)) \<and>
   sink (fst (dispatcher now s)) = sink (fold emit (map d_evt (snd (dispatcher now s))) s) \<and>
   playbackQueue (fst (dispatcher now s)) =
     dropWhile (\<lambda>e. playAt e \<le> now) (playbackQueue s) \<and>
   fst (dispatcher now s) =
     (fold emit (map d_evt (snd (dispatcher now s))) s)
       \<lparr>playbackQueue := dropWhile (\<lambda>e. playAt e \<le> now) (playbackQueue s)\<rparr>"
proof -
  have each: "\<forall>d\<in>set (snd (dispatcher now s)).
      d_time d = now \<and>
      playAt (d_evt d) \<le> d_time d \<and> d_time d \<le> playAt (d_evt d) + 50 \<and>
      (\<exists>pre. playbackQueue s = pre @ d_evt d # playbackQueue (d_before d))"
  proof
    fix d
    assume "d \<in> set (snd (dispatcher now s))"
    then have "d \<in> set (snd (dispatch_loop now (playbackQueue s) s []))"
      by (simp add: dispatcher_def)
    from dispatch_loop_before [OF this]
    show "d_time d = now \<and>
      playAt (d_evt d) \<le> d_time d \<and> d_time d \<le> playAt (d_evt d) + 50 \<and>
      (\<exists>pre. playbackQueue s = pre @ d_evt d # playbackQueue (d_before d))"
      by (simp add: LATE_DROP_MS_def)
  qed
  have evts: "map d_evt (snd (dispatcher now s)) =
     filter (\<lambda>e. now - playAt e \<le> 50) (takeWhile (\<lambda>e. playAt e \<le> now) (playbackQueue s))"
    using dispatch_loop_evts [of now "playbackQueue s" s "[]"]
    by (simp add: dispatcher_def LATE_DROP_MS_def)
  have snk: "sink (fst (dispatcher now s)) =
      sink (fold emit (map d_evt (snd (dispatcher now s))) s)"
    unfolding evts using dispatch_loop_sink [of now "playbackQueue s" s "[]"]
    by (simp add: dispatcher_def LATE_DROP_MS_def)
  have que: "playbackQueue (fst (dispatcher now s)) =
     dropWhile (\<lambda>e. playAt e \<le> now) (playbackQueue s)"
    by (simp add: dispatcher_def dispatch_loop_queue)
  have sta: "fst (dispatcher now s) =
     (fold emit (map d_evt (snd (dispatcher now s))) s)
       \<lparr>playbackQueue := dropWhile (\<lambda>e. playAt e \<le> now) (playbackQueue s)\<rparr>"
    unfolding evts using dispatch_loop_state [of s "playbackQueue s" now "[]"]
    by (simp add: dispatcher_def LATE_DROP_MS_def)
  from each evts snk que sta show ?thesis by blast
qed

theorem dispatcher_window_and_late_drop_witness:
  "map d_evt (snd (dispatcher 1000 ex_server)) = [ex_due] \<and>
   map d_time (snd (dispatcher 1000 ex_server)) = [1000] \<and>
   playAt ex_due \<le> 1000 \<and> 1000 \<le> playAt ex_due + 50 \<and>
   map playbackQueue (map d_before (snd (dispatcher 1000 ex_server))) = [[ex_future]] \<and>
   sink (fst (dispatcher 1000 ex_server)) = [SendNoteOn (JNum 1) (JNum 60) (JNum 100)] \<and>
   playbackQueue (fst (dispatcher 1000 ex_server)) = [ex_future]"
proof -
  note t = dispatcher_window_and_late_drop [of 1000 ex_server]
  have q: "playbackQueue ex_server = [ex_late, ex_due, ex_future]"
    by (simp add: ex_server_def)
  have evts: "map d_evt (snd (dispatcher 1000 ex_server)) = [ex_due]"
    using t unfolding q by (simp add: ex_late_def ex_due_def ex_future_def)
  then obtain d where d: "snd (dispatcher 1000 ex_server) = [d]" and e: "d_evt d = ex_due"
    by auto
  from t d have each: "d_time d = 1000 \<and> playAt (d_evt d) \<le> d_time d \<and>
      d_time d \<le> playAt (d_evt d) + 50 \<and>
      (\<exists>pre. playbackQueue ex_server = pre @ d_evt d # playbackQueue (d_before d))"
    by simp
  then obtain pre where "[ex_late, ex_due, ex_future] = pre @ ex_due # playbackQueue (d_before d)"
    unfolding q e by blast
  then have before: "playbackQueue (d_before d) = [ex_future]"
    by (auto simp add: append_eq_Cons_conv Cons_eq_append_conv ex_late_def ex_due_def
        ex_future_def)
  have snk: "sink (fst (dispatcher 1000 ex_server)) = [SendNoteOn (JNum 1) (JNum 60) (JNum 100)]"
    using t unfolding evts
    by (simp add: emit_def ex_due_def sendNoteOn_def js_or_def ex_server_def init_server_def)
  have que: "playbackQueue (fst (dispatcher 1000 ex_server)) = [ex_future]"
    using t unfolding q by (simp add: ex_late_def ex_due_def ex_future_def)
  from each e have "playAt ex_due \<le> 1000 \<and> 1000 \<le> playAt ex_due + 50" by simp
  with evts d each before snk que show ?thesis by simp
qed

section \<open>Order of dispatch\<close>

text \<open>
  Claim C2, as the code has it. An event is due at \<open>playAt\<close>, the packet's timestamp plus
  the buffer depth in force at that packet's own arrival. Take any input sequence with a
  clock that never runs backwards, and two packets with events \<open>e1\<close>, \<open>e2\<close>, where
  \<open>playAt e1 = ts1 + b1\<close>, \<open>playAt e2 = ts2 + b2\<close>, \<open>ts1 \<le> ts2\<close>, the depth used for the
  first is not larger than the one used for the second (\<open>b1 \<le> b2\<close>), and the first packet
  arrives before its \<open>playAt\<close>. If both events are dispatched, in whatever timer runs,
  the first is dispatched no later than the second. The order in which the two packets
  arrived plays no part.
\<close>

theorem timestamp_order_when_on_time:
  assumes "sorted (clocks ins)"
    and "arrives_before e1 ins (init_server midi)"
    and "playAt e1 = ts1 + b1" and "playAt e2 = ts2 + b2"
    and "ts1 \<le> ts2" and "b1 \<le> b2"
    and "d1 \<in> set (run_log ins (init_server midi))" and "d_evt d1 = e1"
    and "d2 \<in> set (run_log ins (init_server midi))" and "d_evt d2 = e2"
  shows "d_time d1 \<le> d_time d2"
proof -
  have srt: "sorted (map playAt (playbackQueue (init_server midi)))"
    by (simp add: init_server_def)
  have "playAt e1 \<le> playAt (d_evt d2)" using assms(3-6,10) by simp
  with srt assms(1,2,7,8,9) show ?thesis by (rule order_across_runs)
qed

theorem timestamp_order_when_on_time_witness:
  "sorted (clocks ex_two_ticks) \<and>
   arrives_before ex_on60 ex_two_ticks (init_server True) \<and>
   playAt ex_on60 = 1000 + 45 \<and> playAt ex_on62 = 1010 + 45 \<and>
   map show_dispatch (run_log ex_two_ticks (init_server True)) =
     [(1046, NoteOnT, JNum 60, 1045), (1056, NoteOnT, JNum 62, 1055)] \<and>
   d_time (run_log ex_two_ticks (init_server True) ! 0) \<le>
     d_time (run_log ex_two_ticks (init_server True) ! 1)"
proof -
  let ?log = "run_log ex_two_ticks (init_server True)"
  have clk: "sorted (clocks ex_two_ticks)" by code_simp
  have ab: "arrives_before ex_on60 ex_two_ticks (init_server True)" by code_simp
  have p1: "playAt ex_on60 = 1000 + 45" by (simp add: ex_on60_def playAt_mk_event)
  have p2: "playAt ex_on62 = 1010 + 45" by (simp add: ex_on62_def playAt_mk_event)
  have sh: "map show_dispatch ?log =
     [(1046, NoteOnT, JNum 60, 1045), (1056, NoteOnT, JNum 62, 1055)]" by code_simp
  have len: "length ?log = 2" by code_simp
  have e1: "d_evt (?log ! 0) = ex_on60" by code_simp
  have e2: "d_evt (?log ! 1) = ex_on62" by code_simp
  have m1: "?log ! 0 \<in> set ?log" using len by (intro nth_mem) simp
  have m2: "?log ! 1 \<in> set ?log" using len by (intro nth_mem) simp
  have "d_time (?log ! 0) \<le> d_time (?log ! 1)"
    using timestamp_order_when_on_time [OF clk ab p1 p2 _ _ m1 e1 m2 e2] by simp
  with clk ab p1 p2 sh show ?thesis by blast
qed

text \<open>
  Within one run of the dispatcher more can be said: an event dispatched by the run takes
  with it every queued event that is due no later, and the dispatches of the run are in
  \<open>playAt\<close> order.
\<close>

lemma dispatch_within_one_run:
  assumes "e1 \<in> set (playbackQueue (run ins (init_server midi)))"
    and "e2 \<in> set (playbackQueue (run ins (init_server midi)))"
    and "playAt e1 = ts1 + b1" and "playAt e2 = ts2 + b2"
    and "ts1 \<le> ts2" and "b1 \<le> b2"
    and "e2 \<in> set (map d_evt (snd (dispatcher now (run ins (init_server midi)))))"
  shows "e1 \<notin> set (playbackQueue (fst (dispatcher now (run ins (init_server midi))))) \<and>
    (now - playAt e1 \<le> 50 \<longrightarrow>
       e1 \<in> set (map d_evt (snd (dispatcher now (run ins (init_server midi)))))) \<and>
    (\<forall>d\<in>set (snd (dispatcher now (run ins (init_server midi)))). d_time d = now) \<and>
    sorted (map playAt (map d_evt (snd (dispatcher now (run ins (init_server midi))))))"
proof -
  let ?s = "run ins (init_server midi)"
  let ?q = "playbackQueue ?s"
  have srt: "sorted (map playAt ?q)" by (rule sorted_init_run)
  have evts: "map d_evt (snd (dispatcher now ?s)) =
      filter (\<lambda>e. now - playAt e \<le> 50) (filter (\<lambda>e. playAt e \<le> now) ?q)"
    using dispatch_loop_evts [of now ?q ?s "[]"]
    by (simp add: dispatcher_def LATE_DROP_MS_def takeWhile_due_sorted [OF srt])
  have que: "playbackQueue (fst (dispatcher now ?s)) = filter (\<lambda>e. \<not> playAt e \<le> now) ?q"
    by (simp add: dispatcher_def dispatch_loop_queue dropWhile_due_sorted [OF srt])
  have "playAt e2 \<le> now" using assms(7) unfolding evts by simp
  moreover have "playAt e1 \<le> playAt e2" using assms(3-6) by simp
  ultimately have due: "playAt e1 \<le> now" by simp
  have gone: "e1 \<notin> set (playbackQueue (fst (dispatcher now ?s)))"
    unfolding que using due by simp
  have there: "now - playAt e1 \<le> 50 \<longrightarrow> e1 \<in> set (map d_evt (snd (dispatcher now ?s)))"
    unfolding evts using due assms(1) by simp
  have time: "\<forall>d\<in>set (snd (dispatcher now ?s)). d_time d = now"
  proof
    fix d
    assume "d \<in> set (snd (dispatcher now ?s))"
    then have "d \<in> set (snd (dispatch_loop now ?q ?s []))" by (simp add: dispatcher_def)
    from dispatch_loop_before [OF this] show "d_time d = now" by simp
  qed
  have ord: "sorted (map playAt (map d_evt (snd (dispatcher now ?s))))"
    unfolding evts using srt by (simp add: sorted_filter)
  from gone there time ord show ?thesis by blast
qed

text \<open>
  The claim as stated fails when the buffer depth moves between two arrivals. A first
  packet (stamped 900, arriving at 1000) puts the sample 100 into the window. The packet
  stamped 1010 arrives at 1010 and is scheduled with depth 15 at 1025; the packet stamped
  1000 arrives at 1012 and is scheduled with depth 27 at 1027. The dispatcher run at 1026
  dispatches the packet stamped 1010 (note 62), the run at 1030 the one stamped 1000
  (note 60). Each packet arrived before its deadline and none is dropped.

  It also fails, with the same depth for both, when the earlier-stamped packet arrives
  after its deadline and after the other one has been dispatched: the packet stamped
  1010 (depth 15, due 1025) is dispatched by the run at 1026; the packet stamped 1000
  arrives at 1030, is scheduled with depth 15 at 1015 and is dispatched, 16 ms late, by
  the run at 1031.
\<close>

theorem timestamp_order_not_kept:
  "timestamp_of ex_p1 0 = 1000 \<and> timestamp_of ex_p2 0 = 1010 \<and>
   map show_dispatch (snd (dispatcher 1026 ex_reordered)) =
     [(1026, CcT, JUndefined, 1015), (1026, NoteOnT, JNum 62, 1025)] \<and>
   map show_dispatch (snd (dispatcher 1030 (fst (dispatcher 1026 ex_reordered)))) =
     [(1030, NoteOnT, JNum 60, 1027)] \<and>
   map show_dispatch (snd (dispatcher 1026 ex_before_late_arrival)) =
     [(1026, NoteOnT, JNum 62, 1025)] \<and>
   map show_dispatch (snd (dispatcher 1031 ex_late_arrival)) =
     [(1031, NoteOnT, JNum 60, 1015)]"
  by code_simp

section \<open>Buffer depth after a latency sample\<close>

text \<open>
  Claim C3, as the code has it. After the handler has added a latency sample, the window
  \<open>w\<close> is not empty and the client's \<open>bufferSizeMs\<close> is
  \<open>clamp(round(p95 + 15), 10, 300)\<close> with \<open>p95\<close> the element at index
  \<open>floor(0.95 \<times> (len - 1))\<close> of the sorted window. For a window of one sample \<open>x\<close>,
  \<open>p95 = x\<close> and the depth is \<open>clamp(round(x + 15), 10, 300)\<close>; that is
  \<open>clamp(x + 15, 10, 300)\<close> when the sample is a whole number of milliseconds.
\<close>

theorem buffer_depth_after_sample:
  assumes "\<not> nullish obj"
  shows "(let c' = fst (snd (handlePerformancePacket c (Some obj) t1 t2 s));
              w = latencyHistory c'
          in w \<noteq> [] \<and>
             bufferSizeMs c' = spec_clamp (Math_round (spec_p95 w + 15)) 10 300 \<and>
             (\<forall>x. w = [x] \<longrightarrow>
                spec_p95 w = x \<and>
                bufferSizeMs c' = spec_clamp (Math_round (x + 15)) 10 300 \<and>
                (x \<in> \<int> \<longrightarrow> bufferSizeMs c' = spec_clamp (x + 15) 10 300)))"
proof -
  let ?c' = "fst (snd (handlePerformancePacket c (Some obj) t1 t2 s))"
  note b = handle_buffer [OF assms, of c t1 t2 s]
  have main: "bufferSizeMs ?c' = spec_clamp (Math_round (spec_p95 (latencyHistory ?c') + 15)) 10 300"
    using b by (simp add: spec_buffer_depth_def)
  have single: "\<forall>x. latencyHistory ?c' = [x] \<longrightarrow>
        spec_p95 (latencyHistory ?c') = x \<and>
        bufferSizeMs ?c' = spec_clamp (Math_round (x + 15)) 10 300 \<and>
        (x \<in> \<int> \<longrightarrow> bufferSizeMs ?c' = spec_clamp (x + 15) 10 300)"
  proof (intro allI impI)
    fix x
    assume w: "latencyHistory ?c' = [x]"
    have p: "spec_p95 (latencyHistory ?c') = x" unfolding w by (rule spec_p95_single)
    have r: "bufferSizeMs ?c' = spec_clamp (Math_round (x + 15)) 10 300"
      using main unfolding p .
    have "x \<in> \<int> \<longrightarrow> bufferSizeMs ?c' = spec_clamp (x + 15) 10 300"
      using r by (simp add: Math_round_int)
    with p r show "spec_p95 (latencyHistory ?c') = x \<and>
        bufferSizeMs ?c' = spec_clamp (Math_round (x + 15)) 10 300 \<and>
        (x \<in> \<int> \<longrightarrow> bufferSizeMs ?c' = spec_clamp (x + 15) 10 300)" by blast
  qed
  from b main single show ?thesis unfolding Let_def by blast
qed

theorem buffer_depth_after_sample_witness:
  "\<not> nullish ex_noteOn_packet \<and>
   latencyHistory (fst (snd (handlePerformancePacket (new_client 1) (Some ex_noteOn_packet)
       1030 1030 (init_server True)))) = [30] \<and>
   bufferSizeMs (fst (snd (handlePerformancePacket (new_client 1) (Some ex_noteOn_packet)
       1030 1030 (init_server True)))) = 45"
proof -
  let ?c' = "fst (snd (handlePerformancePacket (new_client 1) (Some ex_noteOn_packet)
       1030 1030 (init_server True)))"
  have nn: "\<not> nullish ex_noteOn_packet" by (rule ex_noteOn_not_nullish)
  have ts: "timestamp_of ex_noteOn_packet 1030 = 1000"
    by (simp add: timestamp_of_def ex_noteOn_packet_def)
  have w: "latencyHistory ?c' = [30]"
    by (simp add: handle_Some [OF nn] Let_def new_client_def push_latency_Nil ts)
  have "30 \<in> (\<int> :: rat set)" by simp
  then have "bufferSizeMs ?c' = spec_clamp (30 + 15) 10 300"
    using buffer_depth_after_sample [OF nn, of "new_client 1" 1030 1030 "init_server True"] w
    by (simp add: Let_def)
  then have "bufferSizeMs ?c' = 45" by (simp add: spec_clamp_def)
  with nn w show ?thesis by blast
qed

text \<open>
  Without the rounding the last part fails: a first packet stamped 999.5 that arrives at
  1000 gives the sample 0.5 and the depth 16, not \<open>clamp(0.5 + 15, 10, 300) = 15.5\<close>.
\<close>

theorem buffer_depth_single_fraction:
  "latencyHistory (fst (snd (handlePerformancePacket (new_client 1) (Some ex_half_packet)
       1000 1000 (init_server True)))) = [1 / 2] \<and>
   bufferSizeMs (fst (snd (handlePerformancePacket (new_client 1) (Some ex_half_packet)
       1000 1000 (init_server True)))) = 16 \<and>
   bufferSizeMs (fst (snd (handlePerformancePacket (new_client 1) (Some ex_half_packet)
       1000 1000 (init_server True)))) \<noteq> spec_clamp (1 / 2 + 15) 10 300"
proof -
  have nn: "\<not> nullish ex_half_packet" by (simp add: nullish_def ex_half_packet_def)
  have ts: "timestamp_of ex_half_packet 1000 = 1999 / 2"
    by (simp add: timestamp_of_def ex_half_packet_def)
  have p: "percentile [1 / 2] 95 = 1 / 2"
    by (simp add: percentile_def percentile_index_def Let_def)
  have r: "Math_round (31 / 2) = 16"
    by (simp add: Math_round_def)
  show ?thesis
    by (simp add: handle_Some [OF nn] Let_def new_client_def push_latency_Nil ts p r
        spec_clamp_def)
qed

section \<open>The queue is sorted, ties in insertion order\<close>

text \<open>
  Claim C4. The playback queue is sorted by \<open>playAt\<close> in every state the event loop can
  reach from the start of the process. An insertion into a sorted queue leaves it sorted
  and puts the new event behind every queued event that is due no later (so behind the
  events with the same \<open>playAt\<close>) and in front of those due strictly later; the events
  already queued keep their order.
\<close>

theorem queue_sorted_and_stable:
  "sorted (map playAt (playbackQueue (run ins (init_server midi)))) \<and>
   (sorted (map playAt q) \<longrightarrow>
      sorted (map playAt (insertEvent evt q)) \<and>
      insertEvent evt q =
        filter (\<lambda>x. playAt x \<le> playAt evt) q @ evt # filter (\<lambda>x. playAt evt < playAt x) q)"
proof -
  have "sorted (map playAt (playbackQueue (init_server midi)))"
    by (simp add: init_server_def)
  then have "sorted (map playAt (playbackQueue (run ins (init_server midi))))"
    by (rule sorted_run)
  then show ?thesis
    using sorted_insertEvent [of q evt] insertEvent_sorted_filter [of q evt] by blast
qed

theorem queue_sorted_and_stable_witness:
  "sorted (map playAt [ex_on, ex_later]) \<and>
   sorted (map playAt (insertEvent ex_off [ex_on, ex_later])) \<and>
   insertEvent ex_off [ex_on, ex_later] = [ex_on, ex_off, ex_later]"
  using queue_sorted_and_stable [of "[]" True "[ex_on, ex_later]" ex_off]
  by (simp add: ex_on_def ex_off_def ex_later_def)

section \<open>The safety note-off\<close>

text \<open>
  Claim C5. A performance packet of type \<^verbatim>\<open>noteOn\<close> puts two events into the queue: the
  note-on at \<open>playAt = timestamp + bufferSizeMs\<close> and a note-off for the same channel and
  note at \<open>playAt + 800\<close>. This holds in every state of the queue, and no later packet
  takes the note-off out again.
\<close>

theorem noteOn_schedules_safety_noteOff:
  assumes "get_prop obj ''type'' = JStr ''noteOn''"
  shows "(let r = handlePerformancePacket c (Some obj) t1 t2 s;
              c' = fst (snd r); s' = snd (snd r);
              t = timestamp_of obj t2 + bufferSizeMs c';
              on = mk_event t NoteOnT obj;
              off = mk_event (t + 800) NoteOffT obj
          in fst r = None \<and>
             playbackQueue s' = insertEvent off (insertEvent on (playbackQueue s)) \<and>
             on \<in> set (playbackQueue s') \<and> off \<in> set (playbackQueue s') \<and>
             etype on = NoteOnT \<and> playAt on = t \<and>
             etype off = NoteOffT \<and> playAt off = playAt on + 800 \<and>
             channel off = channel on \<and> note_no off = note_no on \<and>
             note_no on = get_prop obj ''note'' \<and>
             off \<in> set (playbackQueue (snd (snd (handlePerformancePacket c2 msg2 t3 t4 s')))))"
proof -
  have nn: "\<not> nullish obj" using assms by (rule noteOn_not_nullish)
  let ?r = "handlePerformancePacket c (Some obj) t1 t2 s"
  let ?t = "timestamp_of obj t2 + bufferSizeMs (fst (snd ?r))"
  let ?on = "mk_event ?t NoteOnT obj"
  let ?off = "mk_event (?t + 800) NoteOffT obj"
  have q: "playbackQueue (snd (snd ?r)) = insertEvent ?off (insertEvent ?on (playbackQueue s))"
    by (simp add: handle_Some [OF nn] Let_def schedule_noteOn [OF assms])
  have r: "fst ?r = None" by (simp add: handle_Some [OF nn] Let_def)
  have mem: "?on \<in> set (playbackQueue (snd (snd ?r)))" "?off \<in> set (playbackQueue (snd (snd ?r)))"
    unfolding q by (simp_all add: set_insertEvent)
  have later: "?off \<in> set (playbackQueue (snd (snd
      (handlePerformancePacket c2 msg2 t3 t4 (snd (snd ?r))))))"
    using mem(2) by (rule handle_keeps_queued)
  have fields: "etype ?on = NoteOnT \<and> playAt ?on = ?t \<and>
             etype ?off = NoteOffT \<and> playAt ?off = playAt ?on + 800 \<and>
             channel ?off = channel ?on \<and> note_no ?off = note_no ?on \<and>
             note_no ?on = get_prop obj ''note''"
    by (simp add: mk_event_def)
  from r q mem later fields show ?thesis unfolding Let_def by blast
qed

theorem noteOn_schedules_safety_noteOff_witness:
  "get_prop ex_noteOn_packet ''type'' = JStr ''noteOn'' \<and>
   map (\<lambda>e. (etype e, playAt e, channel e, note_no e))
     (playbackQueue (snd (snd (handlePerformancePacket (new_client 1) (Some ex_noteOn_packet)
        1030 1030 (init_server True))))) =
   [(NoteOnT, 1045, JNum 1, JNum 60), (NoteOffT, 1845, JNum 1, JNum 60)]"
proof -
  have ty: "get_prop ex_noteOn_packet ''type'' = JStr ''noteOn''"
    by (simp add: ex_noteOn_packet_def)
  have nn: "\<not> nullish ex_noteOn_packet" by (rule ex_noteOn_not_nullish)
  have ts: "timestamp_of ex_noteOn_packet 1030 = 1000"
    by (simp add: timestamp_of_def ex_noteOn_packet_def)
  have b: "bufferSizeMs (fst (snd (handlePerformancePacket (new_client 1)
       (Some ex_noteOn_packet) 1030 1030 (init_server True)))) = 45"
    by (simp add: handle_Some [OF nn] Let_def new_client_def push_latency_Nil ts
        percentile_def percentile_index_def Math_round_def floor_numeral_div)
  have q0: "playbackQueue (init_server True) = []" by (simp add: init_server_def)
  show ?thesis
    using noteOn_schedules_safety_noteOff [OF ty, of "new_client 1" 1030 1030 "init_server True"]
    unfolding Let_def b ts q0
    by (simp add: ty insertEvent_Nil insertEvent_snoc [of _ "[]", simplified] mk_event_def
        ex_noteOn_packet_def js_or_def)
qed

section \<open>Latency sample and deadline\<close>

text \<open>
  Claim C6. For a packet that parses to a value other than \<^verbatim>\<open>null\<close>, the sample appended
  to the window is \<open>max(0, now - timestamp)\<close>, with \<open>now\<close> the clock reading taken after
  parsing. A packet whose \<^verbatim>\<open>timestamp\<close> is not a number is taken as stamped \<open>now\<close> and
  gives the sample 0; a timestamp later than \<open>now\<close> gives the sample 0 as well. Every
  event the packet schedules is due at \<open>timestamp + bufferSizeMs\<close>, with the buffer depth
  as it is after the sample was added (the safety note-off 800 ms later).
\<close>

theorem latency_sample_and_deadline:
  assumes "\<not> nullish obj"
  shows "(let r = handlePerformancePacket c (Some obj) t1 t2 s;
              c' = fst (snd r); s' = snd (snd r);
              sample = last (latencyHistory c');
              ts = timestamp_of obj t2;
              t = ts + bufferSizeMs c'
          in fst r = None \<and> latencyHistory c' \<noteq> [] \<and>
             sample = max 0 (t2 - ts) \<and>
             (\<forall>n. get_prop obj ''timestamp'' = JNum n \<longrightarrow> ts = n \<and> (t2 < n \<longrightarrow> sample = 0)) \<and>
             ((\<forall>n. get_prop obj ''timestamp'' \<noteq> JNum n) \<longrightarrow> ts = t2 \<and> sample = 0) \<and>
             bufferSizeMs c' = spec_buffer_depth (latencyHistory c') \<and>
             playbackQueue s' = schedule obj t (playbackQueue s) \<and>
             (get_prop obj ''type'' = JStr ''noteOn'' \<longrightarrow>
                playbackQueue s' =
                  insertEvent (mk_event (t + 800) NoteOffT obj)
                    (insertEvent (mk_event t NoteOnT obj) (playbackQueue s))) \<and>
             (get_prop obj ''type'' = JStr ''noteOff'' \<longrightarrow>
                playbackQueue s' = insertEvent (mk_event t NoteOffT obj) (playbackQueue s)) \<and>
             (get_prop obj ''type'' = JStr ''controlChange'' \<longrightarrow>
                playbackQueue s' = insertEvent (mk_event t CcT obj) (playbackQueue s)) \<and>
             (get_prop obj ''type'' = JStr ''programChange'' \<longrightarrow>
                playbackQueue s' = insertEvent (mk_event t ProgramT obj) (playbackQueue s)) \<and>
             (\<forall>ty. playAt (mk_event t ty obj) = t))"
proof -
  let ?r = "handlePerformancePacket c (Some obj) t1 t2 s"
  let ?c' = "fst (snd ?r)"
  let ?s' = "snd (snd ?r)"
  let ?ts = "timestamp_of obj t2"
  let ?t = "?ts + bufferSizeMs ?c'"
  note pl = push_latency_last [of "latencyHistory c" "max 0 (t2 - ?ts)"]
  have r: "fst ?r = None" by (simp add: handle_Some [OF assms] Let_def)
  have ne: "latencyHistory ?c' \<noteq> []" using pl by (simp add: handle_Some [OF assms] Let_def)
  have smp: "last (latencyHistory ?c') = max 0 (t2 - ?ts)"
    using pl by (simp add: handle_Some [OF assms] Let_def)
  have num: "\<forall>n. get_prop obj ''timestamp'' = JNum n \<longrightarrow>
      ?ts = n \<and> (t2 < n \<longrightarrow> last (latencyHistory ?c') = 0)"
    unfolding smp by (simp add: timestamp_of_def)
  have nonum: "(\<forall>n. get_prop obj ''timestamp'' \<noteq> JNum n) \<longrightarrow>
      ?ts = t2 \<and> last (latencyHistory ?c') = 0"
    unfolding smp by (cases "get_prop obj ''timestamp''") (simp_all add: timestamp_of_def)
  have buf: "bufferSizeMs ?c' = spec_buffer_depth (latencyHistory ?c')"
    using handle_buffer [OF assms, of c t1 t2 s] by simp
  have q: "playbackQueue ?s' = schedule obj ?t (playbackQueue s)"
    by (simp add: handle_Some [OF assms] Let_def)
  have q1: "get_prop obj ''type'' = JStr ''noteOn'' \<longrightarrow>
      playbackQueue ?s' =
        insertEvent (mk_event (?t + 800) NoteOffT obj)
          (insertEvent (mk_event ?t NoteOnT obj) (playbackQueue s))"
    unfolding q by (simp add: schedule_def)
  have q2: "get_prop obj ''type'' = JStr ''noteOff'' \<longrightarrow>
      playbackQueue ?s' = insertEvent (mk_event ?t NoteOffT obj) (playbackQueue s)"
    unfolding q by (simp add: schedule_def)
  have q3: "get_prop obj ''type'' = JStr ''controlChange'' \<longrightarrow>
      playbackQueue ?s' = insertEvent (mk_event ?t CcT obj) (playbackQueue s)"
    unfolding q by (simp add: schedule_def)
  have q4: "get_prop obj ''type'' = JStr ''programChange'' \<longrightarrow>
      playbackQueue ?s' = insertEvent (mk_event ?t ProgramT obj) (playbackQueue s)"
    unfolding q by (simp add: schedule_def)
  have pa: "\<forall>ty. playAt (mk_event ?t ty obj) = ?t" by (simp add: playAt_mk_event)
  from r ne smp num nonum buf q q1 q2 q3 q4 pa show ?thesis unfolding Let_def by blast
qed

theorem latency_sample_and_deadline_witness:
  "\<not> nullish ex_future_packet \<and>
   get_prop ex_future_packet ''timestamp'' = JNum 11000 \<and>
   latencyHistory (fst (snd (handlePerformancePacket (new_client 1) (Some ex_future_packet)
       1000 1000 (init_server True)))) = [0] \<and>
   map playAt (playbackQueue (snd (snd (handlePerformancePacket (new_client 1)
       (Some ex_future_packet) 1000 1000 (init_server True))))) = [11015]"
proof -
  let ?r = "handlePerformancePacket (new_client 1) (Some ex_future_packet) 1000 1000
      (init_server True)"
  note nn = ex_future_not_nullish
  have tsp: "get_prop ex_future_packet ''timestamp'' = JNum 11000"
    by (simp add: ex_future_packet_def)
  have ty: "get_prop ex_future_packet ''type'' = JStr ''noteOff''"
    by (simp add: ex_future_packet_def)
  have ts: "timestamp_of ex_future_packet 1000 = 11000"
    by (simp add: timestamp_of_def tsp)
  have w: "latencyHistory (fst (snd ?r)) = [0]"
    by (simp add: handle_Some [OF nn] Let_def new_client_def push_latency_Nil ts)
  have b: "bufferSizeMs (fst (snd ?r)) = 15"
    by (simp add: handle_Some [OF nn] Let_def new_client_def push_latency_Nil ts
        percentile_def percentile_index_def Math_round_def floor_numeral_div)
  have q0: "playbackQueue (init_server True) = []" by (simp add: init_server_def)
  have "playbackQueue (snd (snd ?r)) =
      insertEvent (mk_event (11000 + 15) NoteOffT ex_future_packet) []"
    using latency_sample_and_deadline [OF nn, of "new_client 1" 1000 1000 "init_server True"]
      ty
    unfolding Let_def b ts q0 by blast
  then have "map playAt (playbackQueue (snd (snd ?r))) = [11015]"
    by (simp add: insertEvent_Nil playAt_mk_event)
  with nn tsp w show ?thesis by blast
qed

section \<open>Range of the buffer depth\<close>

text \<open>
  Claim C7. In every state the event loop can reach from the start of the process, every
  registered client has \<open>10 \<le> bufferSizeMs \<le> 300\<close>. A record is created with the depth
  40, and the packet handler, the only code that writes the field afterwards, takes a
  record with a depth in range to one with a depth in range.
\<close>

theorem buffer_depth_in_range:
  "(\<forall>i c. clients (run ins (init_server midi)) i = Some c \<longrightarrow>
      10 \<le> bufferSizeMs c \<and> bufferSizeMs c \<le> 300) \<and>
   bufferSizeMs (fst (ensureClient None s)) = 40 \<and>
   (10 \<le> bufferSizeMs c0 \<and> bufferSizeMs c0 \<le> 300 \<longrightarrow>
      10 \<le> bufferSizeMs (fst (snd (handlePerformancePacket c0 msg t1 t2 s))) \<and>
      bufferSizeMs (fst (snd (handlePerformancePacket c0 msg t1 t2 s))) \<le> 300)"
proof -
  have "\<forall>i c. clients (init_server midi) i = Some c \<longrightarrow>
      10 \<le> bufferSizeMs c \<and> bufferSizeMs c \<le> 300"
    by (simp add: init_server_def)
  then have inv: "\<forall>i c. clients (run ins (init_server midi)) i = Some c \<longrightarrow>
      10 \<le> bufferSizeMs c \<and> bufferSizeMs c \<le> 300"
    by (rule buffer_range_run)
  have new: "bufferSizeMs (fst (ensureClient None s)) = 40"
    by (simp add: ensureClient_def Let_def new_client_def)
  from inv new handle_buffer_range [of c0 msg t1 t2 s] show ?thesis by blast
qed

theorem buffer_depth_in_range_witness:
  "(\<exists>c. clients (run [Connect, Perf 1 (Some ex_noteOn_packet) 1030 1030] (init_server True)) 1
        = Some c \<and> bufferSizeMs c = 45 \<and> 10 \<le> bufferSizeMs c \<and> bufferSizeMs c \<le> 300) \<and>
   10 \<le> bufferSizeMs (new_client 1) \<and> bufferSizeMs (new_client 1) \<le> 300 \<and>
   bufferSizeMs (fst (snd (handlePerformancePacket (new_client 1) (Some ex_noteOn_packet)
       1030 1030 (init_server True)))) \<le> 300"
proof -
  note nn = ex_noteOn_not_nullish
  have ts: "timestamp_of ex_noteOn_packet 1030 = 1000"
    by (simp add: timestamp_of_def ex_noteOn_packet_def)
  have c1: "clients (step Connect (init_server True)) 1 = Some (new_client 1)"
    by (simp add: ensureClient_def Let_def init_server_def)
  have b: "bufferSizeMs (fst (snd (handlePerformancePacket (new_client 1)
       (Some ex_noteOn_packet) 1030 1030 (step Connect (init_server True))))) = 45"
    by (simp add: handle_Some [OF nn] Let_def new_client_def push_latency_Nil ts
        percentile_def percentile_index_def Math_round_def floor_numeral_div)
  have ex: "\<exists>c. clients (run [Connect, Perf 1 (Some ex_noteOn_packet) 1030 1030]
        (init_server True)) 1 = Some c \<and> bufferSizeMs c = 45"
    using c1 b by (auto simp add: run_def split: prod.split)
  have n: "10 \<le> bufferSizeMs (new_client 1) \<and> bufferSizeMs (new_client 1) \<le> 300"
    by (simp add: new_client_def)
  show ?thesis
    using buffer_depth_in_range [of "[Connect, Perf 1 (Some ex_noteOn_packet) 1030 1030]" True
        "init_server True" "new_client 1" "Some ex_noteOn_packet" 1030 1030] ex n
    by auto
qed

section \<open>A note-on on the immediate lane\<close>

text \<open>
  What the handler does with a signaling message of type \<^verbatim>\<open>noteOn\<close>: it adds one to
  \<open>wsImmediate\<close>, calls \<^verbatim>\<open>sendNoteOn\<close> exactly once, within the handler, and leaves the
  playback queue as it was. The call carries the message's note, and the message's
  channel and velocity where these are truthy; a message without a channel is sent on
  channel 1 and one without a velocity with the velocity 127.
\<close>

lemma immediate_noteOn:
  assumes "get_prop message ''type'' = JStr ''noteOn''"
  shows "(let r = onMessage (Some message) s; s' = snd r;
              c = get_prop message ''channel'';
              n = get_prop message ''note'';
              v = get_prop message ''velocity''
          in fst r = None \<and>
             wsImmediate s' = wsImmediate s + 1 \<and>
             playbackQueue s' = playbackQueue s \<and>
             (\<exists>c' v'. sink s' = sink s @ [SendNoteOn c' n v'] \<and>
                (truthy c \<longrightarrow> c' = c) \<and> (truthy v \<longrightarrow> v' = v) \<and>
                (\<forall>k. c = JNum k \<and> k \<noteq> 0 \<longrightarrow> c' = c) \<and>
                (\<forall>k. v = JNum k \<and> k \<noteq> 0 \<longrightarrow> v' = v) \<and>
                (c = JUndefined \<longrightarrow> c' = JNum 1) \<and>
                (v = JUndefined \<longrightarrow> v' = JNum 127)))"
proof -
  let ?c = "get_prop message ''channel''"
  let ?v = "get_prop message ''velocity''"
  let ?s' = "snd (onMessage (Some message) s)"
  have snk: "sink ?s' =
      sink s @ [SendNoteOn (js_or ?c (JNum 1)) (get_prop message ''note'') (js_or ?v (JNum 127))]"
    by (simp add: onMessage_noteOn [OF assms] sendNoteOn_def)
  have c: "(truthy ?c \<longrightarrow> js_or ?c (JNum 1) = ?c) \<and>
      (\<forall>k. ?c = JNum k \<and> k \<noteq> 0 \<longrightarrow> js_or ?c (JNum 1) = ?c) \<and>
      (?c = JUndefined \<longrightarrow> js_or ?c (JNum 1) = JNum 1)"
    by (auto simp add: js_or_def)
  have v: "(truthy ?v \<longrightarrow> js_or ?v (JNum 127) = ?v) \<and>
      (\<forall>k. ?v = JNum k \<and> k \<noteq> 0 \<longrightarrow> js_or ?v (JNum 127) = ?v) \<and>
      (?v = JUndefined \<longrightarrow> js_or ?v (JNum 127) = JNum 127)"
    by (auto simp add: js_or_def)
  have rest: "fst (onMessage (Some message) s) = None \<and>
      wsImmediate ?s' = wsImmediate s + 1 \<and> playbackQueue ?s' = playbackQueue s"
    by (simp add: onMessage_noteOn [OF assms] sendNoteOn_def)
  from snk c v rest show ?thesis unfolding Let_def by blast
qed

text \<open>
  Claim C8 says that the sink is called with exactly the channel, note and velocity of the
  message. For the message \<^verbatim>\<open>{type:"noteOn", channel:1, note:60, velocity:0}\<close> the server
  adds one to \<open>wsImmediate\<close> and leaves the queue alone, as claimed, but calls
  \<^verbatim>\<open>sendNoteOn(1, 60, 127)\<close>: the default in \<^verbatim>\<open>message.velocity || 127\<close> also replaces
  a velocity of zero, which is a velocity the message carries.
\<close>

theorem immediate_noteOn_zero_velocity:
  "get_prop ex_zero_velocity ''type'' = JStr ''noteOn'' \<and>
   get_prop ex_zero_velocity ''channel'' = JNum 1 \<and>
   get_prop ex_zero_velocity ''note'' = JNum 60 \<and>
   get_prop ex_zero_velocity ''velocity'' = JNum 0 \<and>
   wsImmediate (snd (onMessage (Some ex_zero_velocity) (init_server True))) = 1 \<and>
   playbackQueue (snd (onMessage (Some ex_zero_velocity) (init_server True))) = [] \<and>
   sink (snd (onMessage (Some ex_zero_velocity) (init_server True))) =
     [SendNoteOn (JNum 1) (JNum 60) (JNum 127)] \<and>
   sink (snd (onMessage (Some ex_zero_velocity) (init_server True))) \<noteq>
     [SendNoteOn (JNum 1) (JNum 60) (JNum 0)]"
proof -
  have ty: "get_prop ex_zero_velocity ''type'' = JStr ''noteOn''"
    by (simp add: ex_zero_velocity_def)
  have f: "get_prop ex_zero_velocity ''channel'' = JNum 1"
    "get_prop ex_zero_velocity ''note'' = JNum 60"
    "get_prop ex_zero_velocity ''velocity'' = JNum 0"
    by (simp_all add: ex_zero_velocity_def)
  show ?thesis
    unfolding onMessage_noteOn [OF ty] f
    by (simp add: ty sendNoteOn_def js_or_def init_server_def)
qed

section \<open>No cap on the queue\<close>

text \<open>
  Claim C9, as the code has it: \<^verbatim>\<open>insertEvent\<close> has no cap. It makes the queue one event
  longer and drops nothing (the old queue is split in two and the event put between), and
  the handler of the performance lane never shortens the queue.
\<close>

theorem queue_has_no_cap:
  "length (insertEvent evt q) = Suc (length q) \<and>
   (\<exists>pre suf. q = pre @ suf \<and> insertEvent evt q = pre @ evt # suf) \<and>
   length (playbackQueue s) \<le>
     length (playbackQueue (snd (snd (handlePerformancePacket c msg t1 t2 s))))"
proof -
  have "\<exists>pre suf. q = pre @ suf \<and> insertEvent evt q = pre @ evt # suf"
    using insertEvent_split [of q evt] by blast
  moreover have "length (playbackQueue s) \<le>
     length (playbackQueue (snd (snd (handlePerformancePacket c msg t1 t2 s))))"
    using handle_queue [of c msg t1 t2 s] length_schedule [of "playbackQueue s"] by auto
  ultimately show ?thesis by (simp add: length_insertEvent)
qed

text \<open>
  The claim as stated fails: 5001 note-on packets of one client, with no dispatcher run in
  between, leave 10002 events queued.
\<close>

theorem queue_exceeds_cap:
  "\<not> length (playbackQueue
     (run (Connect # replicate 5001 (Perf 1 (Some ex_noteOn_packet) 1000 1000))
        (init_server True))) \<le> 10000"
proof -
  have ty: "get_prop ex_noteOn_packet ''type'' = JStr ''noteOn''"
    by (simp add: ex_noteOn_packet_def)
  have r: "run (Connect # replicate 5001 (Perf 1 (Some ex_noteOn_packet) 1000 1000))
        (init_server True) =
      run (replicate 5001 (Perf 1 (Some ex_noteOn_packet) 1000 1000))
        (step Connect (init_server True))"
    by (simp add: run_def)
  have c: "clients (step Connect (init_server True)) 1 \<noteq> None"
    by (simp add: ensureClient_def init_server_def Let_def)
  have q: "playbackQueue (step Connect (init_server True)) = []"
    by (simp add: ensureClient_def init_server_def Let_def)
  show ?thesis unfolding r using run_noteOn_grows [OF ty c, of 5001 1000 1000] q by simp
qed

section \<open>A datagram that does not parse\<close>

text \<open>
  Claim C10. When the payload is not valid JSON the handler returns without an exception,
  having added one to \<open>rtcPerf\<close> and set the client's \<open>lastSeen\<close> to the clock reading
  taken on entry; the latency window, the buffer depth and the playback queue are as
  before, and so is everything else.
\<close>

theorem unparsable_packet_counts_only:
  "handlePerformancePacket c None t1 t2 s =
     (None, c\<lparr>lastSeen := Some t1\<rparr>, s\<lparr>rtcPerf := rtcPerf s + 1\<rparr>) \<and>
   rtcPerf (snd (snd (handlePerformancePacket c None t1 t2 s))) = rtcPerf s + 1 \<and>
   lastSeen (fst (snd (handlePerformancePacket c None t1 t2 s))) = Some t1 \<and>
   latencyHistory (fst (snd (handlePerformancePacket c None t1 t2 s))) = latencyHistory c \<and>
   bufferSizeMs (fst (snd (handlePerformancePacket c None t1 t2 s))) = bufferSizeMs c \<and>
   playbackQueue (snd (snd (handlePerformancePacket c None t1 t2 s))) = playbackQueue s"
  by (simp add: handle_None)

end
